theory Spec2Isabelle
  imports Main "HOL-Library.Word" "HOL-Library.Sublist"
begin

unbundle bit_operations_syntax

section \<open>Byte stream reader\<close>

text \<open>
  The sources hold two revisions of the library.  The embedding follows the later,
  stream-based one: \<^verbatim>\<open>parse_len_prefixed_seq\<close> with a per-record callable, the three
  recorded positions, \<^verbatim>\<open>get_v2_block\<close>; it is the one \<^verbatim>\<open>main.cpp\<close> calls.  The earlier
  revision (buffers \<^verbatim>\<open>v2_block_buf_\<close>, spans, \<^verbatim>\<open>parse_v2_block() const\<close> that only prints)
  shares \<^verbatim>\<open>reverse_find_bytes\<close>, \<^verbatim>\<open>le_to_host\<close> and the steps of \<^verbatim>\<open>parse\<close> before the
  walk with it.

  A \<^verbatim>\<open>std::ifstream\<close> opened in binary mode is the file's bytes together with the get
  position.  The constructor of \<^verbatim>\<open>siginfo\<close> enables exceptions for \<^verbatim>\<open>failbit\<close> and
  \<^verbatim>\<open>badbit\<close>, so every failed stream operation throws \<^verbatim>\<open>std::ios_base::failure\<close>; the
  other exceptions are \<^verbatim>\<open>std::runtime_error("Incomplete sequence")\<close> and the two
  \<^verbatim>\<open>parse_error\<close>s of \<^verbatim>\<open>siginfo::parse\<close>.  A call either returns a value and the
  advanced stream (\<open>Inr\<close>), throws (\<open>Inl\<close>: the exception and the stream as the throw
  leaves it), or does not return at all (\<open>None\<close>).  A stream value is the bytes and the
  get position of the file buffer.  The state flags are not part of it: every function
  here is applied to a stream in good state, as it is after construction and after every
  call that returned, and the stream of an \<^verbatim>\<open>ios_base::failure\<close> has \<^verbatim>\<open>failbit\<close> set.
\<close>

type_synonym byte = "8 word"
type_synonym u32 = "32 word"
type_synonym u64 = "64 word"

datatype error = ios_failure | incomplete_sequence | not_a_zip_file | magic_not_found

record istream =
  data :: "byte list"
  gpos :: nat

type_synonym 'a res = "(error \<times> istream + 'a \<times> istream) option"

definition bind_res :: "'a res \<Rightarrow> ('a \<Rightarrow> istream \<Rightarrow> 'b res) \<Rightarrow> 'b res" where
  "bind_res m k =
     (case m of None \<Rightarrow> None
      | Some (Inl e) \<Rightarrow> Some (Inl e)
      | Some (Inr (x, st)) \<Rightarrow> k x st)"

text \<open>
  \<^verbatim>\<open>is.read(buf, n)\<close>: stores exactly \<open>n\<close> bytes, or extracts the bytes that are left,
  sets \<^verbatim>\<open>eofbit\<close> and \<^verbatim>\<open>failbit\<close> and throws; the file buffer is then at the end of the
  file (or where it was, when that is beyond the end).
  A read of zero bytes extracts nothing and cannot fail.  The buffers that
  \<^verbatim>\<open>read_into_vector\<close> allocates are lists here: memory is not bounded.
\<close>

definition istream_read :: "nat \<Rightarrow> istream \<Rightarrow> (byte list) res" where
  "istream_read n st =
     (if n = 0 \<or> gpos st + n \<le> length (data st)
      then Some (Inr (take n (drop (gpos st) (data st)), st\<lparr>gpos := gpos st + n\<rparr>))
      else Some (Inl (ios_failure, st\<lparr>gpos := max (gpos st) (length (data st))\<rparr>)))"

text \<open>
  \<^verbatim>\<open>is.seekg(p)\<close>: a negative target fails and leaves the file buffer where it is; a
  target past the end of the file is accepted by the file buffer and the next read fails.  \<^verbatim>\<open>is.seekg(0, std::ios_base::end)\<close> and
  \<^verbatim>\<open>is.tellg()\<close> follow.
\<close>

definition seekg :: "int \<Rightarrow> istream \<Rightarrow> unit res" where
  "seekg p st =
     (if p < 0 then Some (Inl (ios_failure, st)) else Some (Inr ((), st\<lparr>gpos := nat p\<rparr>)))"

definition seekg_end :: "istream \<Rightarrow> unit res" where
  "seekg_end st = Some (Inr ((), st\<lparr>gpos := length (data st)\<rparr>))"

definition tellg :: "istream \<Rightarrow> int" where
  "tellg st = int (gpos st)"

text \<open>
  Positions (\<^verbatim>\<open>std::streampos\<close>) and offsets (\<^verbatim>\<open>std::streamoff\<close>) are signed 64-bit
  numbers; they are integers here, and \<open>streamoff x\<close> is \<open>x\<close> brought into that range the
  way two's complement arithmetic does it.  A file is shorter than \<open>2 ^ 63\<close> bytes, so a
  position that \<^verbatim>\<open>tellg\<close> or the scanner returns, and such a position moved by 8 or 16,
  is in range; the two sums of \<^verbatim>\<open>siginfo::parse\<close> with an operand read from the file
  are written with \<open>streamoff\<close>.  (C++ leaves a signed sum outside the range undefined.)
\<close>

definition streamoff :: "int \<Rightarrow> int" where
  "streamoff x = sint (word_of_int x :: 64 word)"

definition read_into_array :: "nat \<Rightarrow> istream \<Rightarrow> (byte list) res" where
  "read_into_array n st = istream_read n st"

definition read_into_vector :: "istream \<Rightarrow> nat \<Rightarrow> (byte list) res" where
  "read_into_vector st n = istream_read n st"

section \<open>Little-endian codec\<close>

text \<open>
  \<^verbatim>\<open>le_to_host<T>(p)\<close>: the loop \<^verbatim>\<open>v |= static_cast<T>(p[i]) << (8 * i)\<close> for
  \<open>i < sizeof(T)\<close>; the first argument is \<open>sizeof(T)\<close>.
\<close>

definition le_to_host :: "nat \<Rightarrow> byte list \<Rightarrow> 'a::len word" where
  "le_to_host n p = fold (\<lambda>i v. v OR push_bit (8 * i) (ucast (p ! i))) [0..<n] 0"

definition read_le32 :: "istream \<Rightarrow> u32 res" where
  "read_le32 st = bind_res (read_into_array 4 st) (\<lambda>buf st'. Some (Inr (le_to_host 4 buf, st')))"

definition read_le64 :: "istream \<Rightarrow> u64 res" where
  "read_le64 st = bind_res (read_into_array 8 st) (\<lambda>buf st'. Some (Inr (le_to_host 8 buf, st')))"

section \<open>Reverse byte scanner\<close>

text \<open>
  The inner \<^verbatim>\<open>for\<close> loop of \<^verbatim>\<open>reverse_find_bytes\<close> starts at
  \<^verbatim>\<open>window_buffer.crbegin() + pat_size\<close> and stops at \<^verbatim>\<open>crend()\<close>: it runs
  \<open>size - pat_size\<close> times, and the iteration whose reverse iterator has base \<open>b\<close> compares
  the pattern with the bytes that start at \<^verbatim>\<open>it.base() - 1\<close>, index \<open>b - 1\<close>.  The third
  argument of \<open>find_in_window\<close> is the number of iterations left, so the candidate indices
  are \<open>size - pat_size - 1\<close> down to \<open>0\<close>.
\<close>

fun find_in_window :: "byte list \<Rightarrow> byte list \<Rightarrow> nat \<Rightarrow> nat option" where
  "find_in_window window_buffer pat 0 = None"
| "find_in_window window_buffer pat (Suc k) =
     (if take (length pat) (drop k window_buffer) = pat then Some k
      else find_in_window window_buffer pat k)"

definition default_window_size :: nat where
  "default_window_size = 4 * 1024"

definition window_size :: "byte list \<Rightarrow> nat" where
  "window_size pat = max default_window_size (length pat)"

function reverse_find_loop :: "byte list \<Rightarrow> byte list \<Rightarrow> int \<Rightarrow> istream \<Rightarrow> int res" where
  "reverse_find_loop pat carry_buffer current_pos st =
     (if current_pos > 0 then
        (let pos = max 0 (current_pos - int (window_size pat)) in
         case seekg pos st of
           None \<Rightarrow> None
         | Some (Inl e) \<Rightarrow> Some (Inl e)
         | Some (Inr (u, st1)) \<Rightarrow>
            (case istream_read (nat (current_pos - pos)) st1 of
               None \<Rightarrow> None
             | Some (Inl e) \<Rightarrow> Some (Inl e)
             | Some (Inr (window, st2)) \<Rightarrow>
                (let window_buffer = window @ carry_buffer in
                 case find_in_window window_buffer pat (length window_buffer - length pat) of
                   Some k \<Rightarrow> Some (Inr (pos + int k, st2))
                 | None \<Rightarrow>
                     reverse_find_loop pat (take (length pat - 1) window_buffer) pos st2)))
      else Some (Inr (- 1, st)))"
  by pat_completeness auto
termination
  by (relation "measure (\<lambda>(pat, carry_buffer, current_pos, st). nat current_pos)")
     (auto simp: window_size_def default_window_size_def)

declare reverse_find_loop.simps [simp del]

text \<open>
  \<^verbatim>\<open>reverse_find_bytes(is, pat_first, pat_last, start = -1)\<close>.  The carry buffer starts as
  \<open>pat_size - 1\<close> zero bytes (a value-initialised vector).
\<close>

definition reverse_find_bytes :: "istream \<Rightarrow> byte list \<Rightarrow> int \<Rightarrow> int res" where
  "reverse_find_bytes st pat start =
     bind_res (if start = - 1 then seekg_end st else seekg start st) (\<lambda>u st0.
       if length pat = 0 then Some (Inr (- 1, st0))
       else reverse_find_loop pat (replicate (length pat - 1) 0) (tellg st0) st0)"

section \<open>Length-prefixed sequence decoder\<close>

text \<open>
  \<^verbatim>\<open>parse_len_prefixed_seq(seq_len, is, f)\<close>.  The running total \<^verbatim>\<open>parsed_len\<close> is a
  \<^verbatim>\<open>uint32_t\<close>: \<^verbatim>\<open>parsed_len += sizeof(len) + len\<close> wraps modulo \<open>2 ^ 32\<close>.  The callable
  \<open>f\<close> is arbitrary, so the loop need not terminate for every \<open>f\<close>.
\<close>

partial_function (option) parse_len_prefixed_seq_loop ::
  "u32 \<Rightarrow> (u32 \<Rightarrow> istream \<Rightarrow> 'a res) \<Rightarrow> u32 \<Rightarrow> 'a list \<Rightarrow> istream \<Rightarrow> ('a list) res" where
  "parse_len_prefixed_seq_loop seq_len f parsed_len out st =
     (if parsed_len < seq_len then
        (case read_le32 st of
           None \<Rightarrow> None
         | Some (Inl e) \<Rightarrow> Some (Inl e)
         | Some (Inr (len, st1)) \<Rightarrow>
            (case f len st1 of
               None \<Rightarrow> None
             | Some (Inl e) \<Rightarrow> Some (Inl e)
             | Some (Inr (x, st2)) \<Rightarrow>
                (let parsed_len' = parsed_len + (4 + len) in
                 if parsed_len' > seq_len then Some (Inl (incomplete_sequence, st2))
                 else parse_len_prefixed_seq_loop seq_len f parsed_len' (out @ [x]) st2)))
      else Some (Inr (out, st)))"

declare parse_len_prefixed_seq_loop.simps [code]

definition parse_len_prefixed_seq ::
  "u32 \<Rightarrow> istream \<Rightarrow> (u32 \<Rightarrow> istream \<Rightarrow> 'a res) \<Rightarrow> ('a list) res" where
  "parse_len_prefixed_seq seq_len st f = parse_len_prefixed_seq_loop seq_len f 0 [] st"

section \<open>V2 block decoder\<close>

text \<open>
  The structs of \<^verbatim>\<open>apksig.hpp\<close>.  Field names carry the struct's name as a prefix where
  two structs share a field name (\<^verbatim>\<open>sig_algo_id\<close>) or the name is taken (\<^verbatim>\<open>id\<close>,
  \<^verbatim>\<open>value\<close>).
\<close>

record digest =
  digest_sig_algo_id :: u32
  digest_data :: "byte list"

type_synonym certificate = "byte list"

record add_attr =
  add_attr_id :: u32
  add_attr_value :: "byte list"

record v2_signed_data =
  digests :: "digest list"
  certificates :: "certificate list"
  add_attrs :: "add_attr list"

record signature =
  signature_sig_algo_id :: u32
  signature_data :: "byte list"

type_synonym public_key = "byte list"

record v2_signer =
  signed_data :: v2_signed_data
  signatures :: "signature list"
  public_key :: public_key

record v2_block =
  signers :: "v2_signer list"

definition parse_digest :: "u32 \<Rightarrow> istream \<Rightarrow> digest res" where
  "parse_digest len st =
     bind_res (read_le32 st) (\<lambda>sig_algo_id st1.
     bind_res (read_le32 st1) (\<lambda>digest_data_len st2.
     bind_res (read_into_vector st2 (unat digest_data_len)) (\<lambda>digest_data st3.
       Some (Inr (\<lparr>digest_sig_algo_id = sig_algo_id, digest_data = digest_data\<rparr>, st3)))))"

definition parse_certificate :: "u32 \<Rightarrow> istream \<Rightarrow> certificate res" where
  "parse_certificate len st = read_into_vector st (unat len)"

definition parse_add_attr :: "u32 \<Rightarrow> istream \<Rightarrow> add_attr res" where
  "parse_add_attr len st =
     bind_res (read_le32 st) (\<lambda>attr_id st1.
     bind_res (read_le32 st1) (\<lambda>value_len st2.
     bind_res (read_into_vector st2 (unat value_len)) (\<lambda>val st3.
       Some (Inr (\<lparr>add_attr_id = attr_id, add_attr_value = val\<rparr>, st3)))))"

definition parse_v2_signed_data :: "u32 \<Rightarrow> istream \<Rightarrow> v2_signed_data res" where
  "parse_v2_signed_data len st =
     bind_res (read_le32 st) (\<lambda>digests_seq_len st1.
     bind_res (parse_len_prefixed_seq digests_seq_len st1 parse_digest) (\<lambda>ds st2.
     bind_res (read_le32 st2) (\<lambda>certificates_seq_len st3.
     bind_res (parse_len_prefixed_seq certificates_seq_len st3 parse_certificate) (\<lambda>cs st4.
     bind_res (read_le32 st4) (\<lambda>add_attrs_seq_len st5.
     bind_res (parse_len_prefixed_seq add_attrs_seq_len st5 parse_add_attr) (\<lambda>as st6.
     bind_res (read_le32 st6) (\<lambda>x st7.
       Some (Inr (\<lparr>digests = ds, certificates = cs, add_attrs = as\<rparr>, st7)))))))))"

definition parse_signature :: "u32 \<Rightarrow> istream \<Rightarrow> signature res" where
  "parse_signature len st =
     bind_res (read_le32 st) (\<lambda>sig_algo_id st1.
     bind_res (read_le32 st1) (\<lambda>sig_data_len st2.
     bind_res (read_into_vector st2 (unat sig_data_len)) (\<lambda>sig_data st3.
       Some (Inr (\<lparr>signature_sig_algo_id = sig_algo_id, signature_data = sig_data\<rparr>, st3)))))"

definition parse_public_key :: "u32 \<Rightarrow> istream \<Rightarrow> public_key res" where
  "parse_public_key len st = read_into_vector st (unat len)"

definition parse_v2_signer :: "u32 \<Rightarrow> istream \<Rightarrow> v2_signer res" where
  "parse_v2_signer len st =
     bind_res (read_le32 st) (\<lambda>signed_data_len st1.
     bind_res (parse_v2_signed_data signed_data_len st1) (\<lambda>sd st2.
     bind_res (read_le32 st2) (\<lambda>signatures_seq_len st3.
     bind_res (parse_len_prefixed_seq signatures_seq_len st3 parse_signature) (\<lambda>sigs st4.
     bind_res (read_le32 st4) (\<lambda>public_key_len st5.
     bind_res (parse_public_key public_key_len st5) (\<lambda>pk st6.
       Some (Inr (\<lparr>signed_data = sd, signatures = sigs, public_key = pk\<rparr>, st6))))))))"

definition parse_v2_block :: "u32 \<Rightarrow> istream \<Rightarrow> v2_block res" where
  "parse_v2_block len st =
     bind_res (parse_len_prefixed_seq len st parse_v2_signer) (\<lambda>sgs st1.
       Some (Inr (\<lparr>signers = sgs\<rparr>, st1)))"

section \<open>Signing block locator\<close>

text \<open>
  The class \<^verbatim>\<open>siginfo\<close>: the stream, the three recorded positions (initially \<open>-1\<close>) and the
  decoded block (initially without signers).  A member function returns the object as it
  is when the call returns or throws: an exception leaves every assignment made before it
  in place, and the stream where the failing call left it.  The fields are the data members without their trailing underscore; the
  member \<^verbatim>\<open>v2_block_\<close> is the field \<open>v2_block_of\<close>, as \<open>v2_block\<close> names its type.
\<close>

record siginfo =
  ifs :: istream
  v2_block_pos :: int
  v3_block_pos :: int
  v3_1_block_pos :: int
  v2_block_of :: v2_block

type_synonym 'a sres = "((error + 'a) \<times> siginfo) option"

definition eocd_magic :: "byte list" where
  "eocd_magic = [0x50, 0x4B, 0x05, 0x06]"

definition apk_magic :: "byte list" where
  "apk_magic = [0x41, 0x50, 0x4B, 0x20, 0x53, 0x69, 0x67, 0x20,
                0x42, 0x6C, 0x6F, 0x63, 0x6B, 0x20, 0x34, 0x32]"

definition v2_id :: u32 where "v2_id = 0x7109871a"
definition v3_id :: u32 where "v3_id = 0xf05368c0"
definition v3_1_id :: u32 where "v3_1_id = 0x1b93ad61"

definition siginfo_new :: "byte list \<Rightarrow> siginfo" where
  "siginfo_new file =
     \<lparr>ifs = \<lparr>data = file, gpos = 0\<rparr>, v2_block_pos = - 1, v3_block_pos = - 1,
      v3_1_block_pos = - 1, v2_block_of = \<lparr>signers = []\<rparr>\<rparr>"

definition has_v2_block :: "siginfo \<Rightarrow> bool" where
  "has_v2_block s = (v2_block_pos s \<noteq> - 1)"

definition has_v3_block :: "siginfo \<Rightarrow> bool" where
  "has_v3_block s = (v3_block_pos s \<noteq> - 1)"

definition has_v3_1_block :: "siginfo \<Rightarrow> bool" where
  "has_v3_1_block s = (v3_1_block_pos s \<noteq> - 1)"

definition get_v2_block :: "siginfo \<Rightarrow> v2_block" where
  "get_v2_block s = v2_block_of s"

text \<open>
  One iteration of the \<^verbatim>\<open>for\<close> loop of \<^verbatim>\<open>siginfo::parse\<close> at index \<open>i\<close>; the value
  returned is the next index, \<^verbatim>\<open>i + static_cast<std::streamoff>(pair_len + 8)\<close>: the inner
  sum is a \<^verbatim>\<open>uint64_t\<close>, the cast reads it as a signed 64-bit offset, and the outer sum
  is one of signed 64-bit numbers.
\<close>

definition parse_pair :: "siginfo \<Rightarrow> int \<Rightarrow> int sres" where
  "parse_pair s i =
     (case seekg i (ifs s) of
        None \<Rightarrow> None
      | Some (Inl (e, st')) \<Rightarrow> Some (Inl e, s\<lparr>ifs := st'\<rparr>)
      | Some (Inr (u, st1)) \<Rightarrow>
     (case read_le64 st1 of
        None \<Rightarrow> None
      | Some (Inl (e, st')) \<Rightarrow> Some (Inl e, s\<lparr>ifs := st'\<rparr>)
      | Some (Inr (pair_len, st2)) \<Rightarrow>
     (case read_le32 st2 of
        None \<Rightarrow> None
      | Some (Inl (e, st')) \<Rightarrow> Some (Inl e, s\<lparr>ifs := st'\<rparr>)
      | Some (Inr (pair_id, st3)) \<Rightarrow>
          if pair_id = v2_id then
            (let s1 = s\<lparr>ifs := st3, v2_block_pos := tellg st3\<rparr> in
             case read_le32 st3 of
               None \<Rightarrow> None
             | Some (Inl (e, st')) \<Rightarrow> Some (Inl e, s1\<lparr>ifs := st'\<rparr>)
             | Some (Inr (v2_block_len, st4)) \<Rightarrow>
                (case parse_v2_block v2_block_len st4 of
                   None \<Rightarrow> None
                 | Some (Inl (e, st')) \<Rightarrow> Some (Inl e, s1\<lparr>ifs := st'\<rparr>)
                 | Some (Inr (b, st5)) \<Rightarrow>
                     Some (Inr (streamoff (i + sint (pair_len + 8))),
                           s1\<lparr>ifs := st5, v2_block_of := b\<rparr>)))
          else if pair_id = v3_id then
            Some (Inr (streamoff (i + sint (pair_len + 8))),
                  s\<lparr>ifs := st3, v3_block_pos := tellg st3\<rparr>)
          else if pair_id = v3_1_id then
            Some (Inr (streamoff (i + sint (pair_len + 8))),
                  s\<lparr>ifs := st3, v3_1_block_pos := tellg st3\<rparr>)
          else Some (Inr (streamoff (i + sint (pair_len + 8))), s\<lparr>ifs := st3\<rparr>))))"

partial_function (option) parse_pairs :: "int \<Rightarrow> siginfo \<Rightarrow> int \<Rightarrow> unit sres" where
  "parse_pairs apk_sig_size_of_block_pos s i =
     (if i < apk_sig_size_of_block_pos then
        (case parse_pair s i of
           None \<Rightarrow> None
         | Some (Inl e, s') \<Rightarrow> Some (Inl e, s')
         | Some (Inr i', s') \<Rightarrow> parse_pairs apk_sig_size_of_block_pos s' i')
      else Some (Inr (), s))"

declare parse_pairs.simps [code]

text \<open>
  \<^verbatim>\<open>siginfo::parse\<close>.  The block size is a \<^verbatim>\<open>uint64_t\<close> read as a signed offset, and
  the start of the pair region is a difference of signed 64-bit numbers.
\<close>

definition parse :: "siginfo \<Rightarrow> unit sres" where
  "parse s =
     (case reverse_find_bytes (ifs s) eocd_magic (- 1) of
        None \<Rightarrow> None
      | Some (Inl (e, st')) \<Rightarrow> Some (Inl e, s\<lparr>ifs := st'\<rparr>)
      | Some (Inr (eocd_magic_pos, st0)) \<Rightarrow>
          if eocd_magic_pos = - 1 then Some (Inl not_a_zip_file, s\<lparr>ifs := st0\<rparr>)
          else
     (case seekg (eocd_magic_pos + 16) st0 of
        None \<Rightarrow> None
      | Some (Inl (e, st')) \<Rightarrow> Some (Inl e, s\<lparr>ifs := st'\<rparr>)
      | Some (Inr (u1, st1)) \<Rightarrow>
     (case read_le32 st1 of
        None \<Rightarrow> None
      | Some (Inl (e, st')) \<Rightarrow> Some (Inl e, s\<lparr>ifs := st'\<rparr>)
      | Some (Inr (offset_of_start_of_cd, st2)) \<Rightarrow>
     (case seekg (uint offset_of_start_of_cd) st2 of
        None \<Rightarrow> None
      | Some (Inl (e, st')) \<Rightarrow> Some (Inl e, s\<lparr>ifs := st'\<rparr>)
      | Some (Inr (u3, st3)) \<Rightarrow>
     (let start_of_cd_pos = tellg st3;
          apk_sig_magic_pos = start_of_cd_pos - 16 in
      case seekg apk_sig_magic_pos st3 of
        None \<Rightarrow> None
      | Some (Inl (e, st')) \<Rightarrow> Some (Inl e, s\<lparr>ifs := st'\<rparr>)
      | Some (Inr (u4, st4)) \<Rightarrow>
     (case read_into_array 16 st4 of
        None \<Rightarrow> None
      | Some (Inl (e, st')) \<Rightarrow> Some (Inl e, s\<lparr>ifs := st'\<rparr>)
      | Some (Inr (magic, st5)) \<Rightarrow>
          if magic \<noteq> apk_magic then Some (Inl magic_not_found, s\<lparr>ifs := st5\<rparr>)
          else
     (let apk_sig_size_of_block_pos = apk_sig_magic_pos - 8 in
      case seekg apk_sig_size_of_block_pos st5 of
        None \<Rightarrow> None
      | Some (Inl (e, st')) \<Rightarrow> Some (Inl e, s\<lparr>ifs := st'\<rparr>)
      | Some (Inr (u6, st6)) \<Rightarrow>
     (case read_le64 st6 of
        None \<Rightarrow> None
      | Some (Inl (e, st')) \<Rightarrow> Some (Inl e, s\<lparr>ifs := st'\<rparr>)
      | Some (Inr (apk_sig_size_of_block, st7)) \<Rightarrow>
     (let apk_sig_id_val_pairs_pos =
            streamoff (start_of_cd_pos - sint apk_sig_size_of_block) in
      parse_pairs apk_sig_size_of_block_pos (s\<lparr>ifs := st7\<rparr>)
        apk_sig_id_val_pairs_pos)))))))))"

section \<open>Encoders and example inputs\<close>

text \<open>
  Modelled from the spec: the repository has no encoder (re-encoding a signing block is a
  non-goal), so the wire layout of sections 4.6 and 6 is written here as functions from
  the entity tree to bytes.  \<open>le_bytes n w\<close> is the \<open>n\<close>-byte little-endian image of \<open>w\<close>;
  a length-prefixed record is a u32 length followed by that many bytes; a sequence is its
  records back to back.  The layouts of Digest, Certificate, AdditionalAttribute and
  Signature are those of section 4.6.

  The parameter \<open>trailer\<close> of \<open>encode_v2_signer\<close> is what lies between the attribute
  sequence and the signatures length: section 4.6 has nothing there (\<open>trailer = []\<close>),
  the decoder of this repository reads four more bytes there.
\<close>

definition le_bytes :: "nat \<Rightarrow> 'a::len word \<Rightarrow> byte list" where
  "le_bytes n w = map (\<lambda>i. ucast (drop_bit (8 * i) w)) [0..<n]"

definition encode_len_prefixed :: "byte list \<Rightarrow> byte list" where
  "encode_len_prefixed bs = le_bytes 4 (word_of_nat (length bs) :: u32) @ bs"

definition encode_len_prefixed_seq :: "('a \<Rightarrow> byte list) \<Rightarrow> 'a list \<Rightarrow> byte list" where
  "encode_len_prefixed_seq enc xs =
     concat (map (\<lambda>x. le_bytes 4 (word_of_nat (length (enc x)) :: u32) @ enc x) xs)"

definition encode_digest :: "digest \<Rightarrow> byte list" where
  "encode_digest d =
     le_bytes 4 (digest_sig_algo_id d) @
     le_bytes 4 (word_of_nat (length (digest_data d)) :: u32) @ digest_data d"

definition encode_certificate :: "certificate \<Rightarrow> byte list" where
  "encode_certificate c = c"

definition encode_add_attr :: "add_attr \<Rightarrow> byte list" where
  "encode_add_attr a =
     le_bytes 4 (add_attr_id a) @
     le_bytes 4 (word_of_nat (length (add_attr_value a)) :: u32) @ add_attr_value a"

definition encode_signature :: "signature \<Rightarrow> byte list" where
  "encode_signature g =
     le_bytes 4 (signature_sig_algo_id g) @
     le_bytes 4 (word_of_nat (length (signature_data g)) :: u32) @ signature_data g"

definition encode_v2_signed_data :: "v2_signed_data \<Rightarrow> byte list" where
  "encode_v2_signed_data sd =
     encode_len_prefixed (encode_len_prefixed_seq encode_digest (digests sd)) @
     encode_len_prefixed (encode_len_prefixed_seq encode_certificate (certificates sd)) @
     encode_len_prefixed (encode_len_prefixed_seq encode_add_attr (add_attrs sd))"

definition encode_v2_signer :: "byte list \<Rightarrow> v2_signer \<Rightarrow> byte list" where
  "encode_v2_signer trailer sg =
     encode_len_prefixed (encode_v2_signed_data (signed_data sg) @ trailer) @
     encode_len_prefixed (encode_len_prefixed_seq encode_signature (signatures sg)) @
     encode_len_prefixed (public_key sg)"

definition encode_v2_block :: "byte list \<Rightarrow> v2_block \<Rightarrow> byte list" where
  "encode_v2_block trailer b = encode_len_prefixed_seq (encode_v2_signer trailer) (signers b)"

text \<open>Every length field of an encoding can hold its value when the encoding is shorter
  than \<open>2 ^ 32\<close> bytes.\<close>

definition fits_u32 :: "byte list \<Rightarrow> bool" where
  "fits_u32 bs \<longleftrightarrow> length bs < 2 ^ 32"

definition wf_v2_block :: "byte list \<Rightarrow> v2_block \<Rightarrow> bool" where
  "wf_v2_block trailer b \<longleftrightarrow> length trailer = 4 \<and> fits_u32 (encode_v2_block trailer b)"

text \<open>
  Modelled from the spec: the container layout of section 6 (the repository only reads
  it).  A pair is a u64 length, the u32 id and the value; the signing block is its size,
  the pairs, the size again and the magic; the file ends with an end-of-central-directory
  record whose bytes 16 to 19 hold the offset of the (here empty) central directory.
\<close>

definition id_value_pair :: "u32 \<Rightarrow> byte list \<Rightarrow> byte list" where
  "id_value_pair pid v = le_bytes 8 (word_of_nat (4 + length v) :: u64) @ le_bytes 4 pid @ v"

definition signing_block :: "byte list \<Rightarrow> byte list" where
  "signing_block pairs =
     le_bytes 8 (word_of_nat (length pairs + 24) :: u64) @ pairs @
     le_bytes 8 (word_of_nat (length pairs + 24) :: u64) @ apk_magic"

definition eocd_record :: "nat \<Rightarrow> byte list" where
  "eocd_record cd = eocd_magic @ replicate 12 0 @ le_bytes 4 (word_of_nat cd :: u32) @ [0, 0]"

definition apk_file :: "byte list \<Rightarrow> byte list" where
  "apk_file pairs = signing_block pairs @ eocd_record (length (signing_block pairs))"

text \<open>
  The end-of-central-directory record of a ZIP archive ends with a two-byte comment
  length and the comment; \<open>eocd_record\<close> is the record without a comment.
\<close>

definition eocd_record_commented :: "nat \<Rightarrow> byte list \<Rightarrow> byte list" where
  "eocd_record_commented cd comment =
     eocd_magic @ replicate 12 0 @ le_bytes 4 (word_of_nat cd :: u32) @
     le_bytes 2 (word_of_nat (length comment) :: 16 word) @ comment"

text \<open>Concrete inputs used below.\<close>

definition empty_signer :: v2_signer where
  "empty_signer = \<lparr>signed_data = \<lparr>digests = [], certificates = [], add_attrs = []\<rparr>,
                    signatures = [], public_key = []\<rparr>"

definition example_signed_data :: v2_signed_data where
  "example_signed_data =
     \<lparr>digests = [\<lparr>digest_sig_algo_id = 0x0103, digest_data = [0xAA, 0xBB]\<rparr>],
      certificates = [[0x30, 0x82]],
      add_attrs = [\<lparr>add_attr_id = 1, add_attr_value = [9]\<rparr>]\<rparr>"

definition example_signer :: v2_signer where
  "example_signer =
     \<lparr>signed_data = example_signed_data,
      signatures = [\<lparr>signature_sig_algo_id = 0x0103, signature_data = [0xCC]\<rparr>],
      public_key = [0xDD, 0xEE]\<rparr>"

definition example_block :: v2_block where
  "example_block = \<lparr>signers = [example_signer, empty_signer]\<rparr>"

definition example_signed_data_stream :: istream where
  "example_signed_data_stream =
     \<lparr>data = [0x77] @ encode_v2_signed_data example_signed_data @ [1, 2, 3, 4] @ [0x99],
      gpos = 1\<rparr>"

definition example_block_stream :: istream where
  "example_block_stream =
     \<lparr>data = encode_v2_block [0, 0, 0, 0] example_block @ [0xFF], gpos = 0\<rparr>"

definition zero_signers_apk :: "byte list" where
  "zero_signers_apk = apk_file (id_value_pair v2_id (le_bytes 4 (0 :: u32)))"

definition commented_apk :: "nat \<Rightarrow> byte list" where
  "commented_apk n =
     signing_block (id_value_pair v2_id (le_bytes 4 (0 :: u32))) @
     eocd_record_commented 48 (replicate n 0)"

definition good_v2_value :: "byte list" where
  "good_v2_value =
     encode_len_prefixed (encode_v2_block [0, 0, 0, 0] \<lparr>signers = [empty_signer]\<rparr>)"

definition bad_v2_value :: "byte list" where
  "bad_v2_value = le_bytes 4 (1 :: u32) @ replicate 32 0"

definition failing_apk :: "byte list" where
  "failing_apk =
     apk_file (id_value_pair v3_id [] @ id_value_pair v2_id good_v2_value @
               id_value_pair v2_id bad_v2_value)"

definition failed_state :: siginfo where
  "failed_state =
     \<lparr>ifs = \<lparr>data = failing_apk, gpos = 116\<rparr>, v2_block_pos = 80, v3_block_pos = 20,
      v3_1_block_pos = - 1, v2_block_of = \<lparr>signers = [empty_signer]\<rparr>\<rparr>"

definition wrap_pair :: "byte list" where
  "wrap_pair = le_bytes 8 (0xFFFFFFFFFFFFFFF8 :: u64) @ le_bytes 4 (0 :: u32)"

definition never_ending_apk :: "byte list" where
  "never_ending_apk = apk_file wrap_pair"

definition padding_pair :: "byte list" where
  "padding_pair = id_value_pair 0x42726577 [1, 2, 3, 4]"

definition short_v2_pair :: "byte list" where
  "short_v2_pair = id_value_pair v2_id (le_bytes 4 (0 :: u32)) @ replicate 28 0"

definition big_seq :: "byte list" where
  "big_seq = [0xFC, 0xFF, 0xFF, 0xFF] @ replicate 4294967292 0 @ [4, 0, 0, 0] @ [1, 2, 3, 4]"

definition small_seq :: istream where
  "small_seq = \<lparr>data = [1, 0, 0, 0, 7, 0, 0, 0, 0], gpos = 0\<rparr>"

definition straddle_file :: "byte list" where
  "straddle_file = replicate 4095 0 @ eocd_magic @ replicate 4093 0"

section \<open>Notions used in the statements\<close>

text \<open>
  \<open>decodes p bs x\<close>: wherever the bytes \<open>bs\<close> start at the get position, \<open>p\<close> returns \<open>x\<close>
  and leaves the position right after them.
\<close>

definition decodes :: "(istream \<Rightarrow> 'a res) \<Rightarrow> byte list \<Rightarrow> 'a \<Rightarrow> bool" where
  "decodes p bs x \<longleftrightarrow>
     (\<forall>st. prefix bs (drop (gpos st) (data st)) \<longrightarrow>
           p st = Some (Inr (x, st\<lparr>gpos := gpos st + length bs\<rparr>)))"

text \<open>What the decoders can throw, and that they never change the file's bytes.\<close>

definition decoder_error :: "error \<Rightarrow> bool" where
  "decoder_error e \<longleftrightarrow> e = ios_failure \<or> e = incomplete_sequence"

definition keeps_data :: "(istream \<Rightarrow> 'a res) \<Rightarrow> bool" where
  "keeps_data p \<longleftrightarrow>
     (\<forall>st x st'. p st = Some (Inr (x, st')) \<longrightarrow> data st' = data st) \<and>
     (\<forall>st e st'. p st = Some (Inl (e, st')) \<longrightarrow> data st' = data st)"

definition throws_decoder_error :: "(istream \<Rightarrow> 'a res) \<Rightarrow> bool" where
  "throws_decoder_error p \<longleftrightarrow> (\<forall>st e st'. p st = Some (Inl (e, st')) \<longrightarrow> decoder_error e)"

definition sound :: "(istream \<Rightarrow> 'a res) \<Rightarrow> bool" where
  "sound p \<longleftrightarrow> keeps_data p \<and> throws_decoder_error p"

text \<open>
  \<open>id_at file p pid\<close>: the four bytes that end at offset \<open>p\<close> are the id \<open>pid\<close>, so \<open>p\<close> is
  where the value of a pair with that id starts.  \<open>decoded_at file p b\<close>: reading a u32
  length at offset \<open>p\<close> and decoding a v2 block of that length returns \<open>b\<close>.
\<close>

definition id_at :: "byte list \<Rightarrow> int \<Rightarrow> u32 \<Rightarrow> bool" where
  "id_at file p pid \<longleftrightarrow>
     4 \<le> p \<and> nat p \<le> length file \<and> le_to_host 4 (take 4 (drop (nat p - 4) file)) = pid"

definition decoded_at :: "byte list \<Rightarrow> nat \<Rightarrow> v2_block \<Rightarrow> bool" where
  "decoded_at file p b \<longleftrightarrow>
     (case read_le32 \<lparr>data = file, gpos = p\<rparr> of
        Some (Inr (len, st1)) \<Rightarrow>
          (case parse_v2_block len st1 of Some (Inr (b', st2)) \<Rightarrow> b' = b | _ \<Rightarrow> False)
      | _ \<Rightarrow> False)"

definition walk_inv :: "siginfo \<Rightarrow> siginfo \<Rightarrow> bool" where
  "walk_inv s s' \<longleftrightarrow>
     data (ifs s') = data (ifs s) \<and>
     (v2_block_pos s' = v2_block_pos s \<or> id_at (data (ifs s)) (v2_block_pos s') v2_id) \<and>
     (v3_block_pos s' = v3_block_pos s \<or> id_at (data (ifs s)) (v3_block_pos s') v3_id) \<and>
     (v3_1_block_pos s' = v3_1_block_pos s \<or> id_at (data (ifs s)) (v3_1_block_pos s') v3_1_id) \<and>
     (v2_block_of s' = v2_block_of s \<or>
      (\<exists>p. id_at (data (ifs s)) (int p) v2_id \<and> decoded_at (data (ifs s)) p (v2_block_of s')))"

text \<open>
  The records a sequence decoder meets: \<open>frames st Ls\<close> holds when a u32 with value
  \<open>Ls ! 0\<close> lies at the get position, the next one \<open>Ls ! 0\<close> bytes after its end, and so on.
  \<open>total32\<close> is the running total as the code keeps it, in 32 bits; \<open>total_bytes\<close> is the
  number of bytes the records occupy.  \<open>accepts f st Ls\<close>: the stream holds records of the
  declared lengths \<open>Ls\<close> one after the other, each where \<open>f\<close> has left the stream, and \<open>f\<close>
  returns normally on each of them.  \<open>exact f\<close>: \<open>f\<close> returns, and when it returns
  normally it has moved the get position by its declared length and nothing else.
\<close>

fun frames :: "istream \<Rightarrow> u32 list \<Rightarrow> bool" where
  "frames st [] = True"
| "frames st (L # Ls) =
     (case read_le32 st of
        Some (Inr (L', st1)) \<Rightarrow> L' = L \<and> frames (st1\<lparr>gpos := gpos st1 + unat L\<rparr>) Ls
      | _ \<Rightarrow> False)"

fun accepts :: "(u32 \<Rightarrow> istream \<Rightarrow> 'a res) \<Rightarrow> istream \<Rightarrow> u32 list \<Rightarrow> bool" where
  "accepts f st [] = True"
| "accepts f st (L # Ls) =
     (case read_le32 st of
        Some (Inr (L', st1)) \<Rightarrow>
          L' = L \<and> (case f L st1 of Some (Inr (x, st2)) \<Rightarrow> accepts f st2 Ls | _ \<Rightarrow> False)
      | _ \<Rightarrow> False)"

definition total32 :: "u32 list \<Rightarrow> u32" where
  "total32 Ls = (\<Sum>L\<leftarrow>Ls. 4 + L)"

definition total_bytes :: "u32 list \<Rightarrow> nat" where
  "total_bytes Ls = (\<Sum>L\<leftarrow>Ls. 4 + unat L)"

definition exact :: "(u32 \<Rightarrow> istream \<Rightarrow> 'a res) \<Rightarrow> bool" where
  "exact f \<longleftrightarrow>
     (\<forall>len st. \<exists>r. f len st = Some r \<and>
        (\<forall>x st'. r = Inr (x, st') \<longrightarrow> st' = st\<lparr>gpos := gpos st + unat len\<rparr>))"

section \<open>Little-endian round trip\<close>

lemma length_le_bytes [simp]: "length (le_bytes n w) = n"
  by (simp add: le_bytes_def)

lemma bit_push_byte:
  "bit (push_bit (8 * n) (ucast (b :: byte)) :: 'a::len word) k \<longleftrightarrow>
     k < LENGTH('a) \<and> k div 8 = n \<and> bit b (k mod 8)"
proof (cases "k div 8 = n")
  case True
  then have le: "8 * n \<le> k" and md: "k - 8 * n = k mod 8"
    by (auto simp: minus_mult_div_eq_mod [symmetric])
  show ?thesis using True le md
    by (auto simp: bit_simps)
next
  case False
  have "\<not> (8 * n \<le> k \<and> bit b (k - 8 * n))"
  proof
    assume a: "8 * n \<le> k \<and> bit b (k - 8 * n)"
    then have "k - 8 * n < 8" using bit_imp_le_length [of b "k - 8 * n"] by simp
    with a have "k div 8 = n" by (intro div_nat_eqI) auto
    with False show False by simp
  qed
  with False show ?thesis by (auto simp: bit_simps)
qed

lemma bit_le_to_host:
  "bit (le_to_host n p :: 'a::len word) k \<longleftrightarrow>
     k < LENGTH('a) \<and> k div 8 < n \<and> bit (p ! (k div 8)) (k mod 8)"
proof (induction n)
  case 0
  then show ?case by (simp add: le_to_host_def)
next
  case (Suc n)
  have step: "le_to_host (Suc n) p = (le_to_host n p :: 'a word) OR push_bit (8 * n) (ucast (p ! n))"
    by (simp add: le_to_host_def)
  show ?case
    unfolding step bit_or_iff Suc.IH bit_push_byte
    by (auto simp: less_Suc_eq)
qed

lemma le_to_host_le_bytes:
  assumes "LENGTH('a::len) \<le> 8 * n"
  shows "le_to_host n (le_bytes n w) = (w :: 'a word)"
proof (rule bit_word_eqI)
  fix k assume k: "k < LENGTH('a)"
  then have d: "k div 8 < n" using assms by (simp add: less_mult_imp_div_less mult.commute)
  show "bit (le_to_host n (le_bytes n w) :: 'a word) k = bit w k"
    unfolding bit_le_to_host using k d
    by (simp add: le_bytes_def bit_simps)
qed

lemma le_to_host_le_bytes32: "le_to_host 4 (le_bytes 4 w) = (w :: u32)"
  by (rule le_to_host_le_bytes) simp

lemma le_to_host_le_bytes64: "le_to_host 8 (le_bytes 8 w) = (w :: u64)"
  by (rule le_to_host_le_bytes) simp

section \<open>Decoding an encoding\<close>

lemma decodesI:
  "(\<And>st :: istream. prefix bs (drop (gpos st) (data st)) \<Longrightarrow>
          p st = Some (Inr (x, st\<lparr>gpos := gpos st + length bs\<rparr>))) \<Longrightarrow> decodes p bs x"
  by (simp add: decodes_def)

lemma decodesD:
  "decodes p bs x \<Longrightarrow> prefix bs (drop (gpos (st :: istream)) (data st)) \<Longrightarrow>
     p st = Some (Inr (x, st\<lparr>gpos := gpos st + length bs\<rparr>))"
  by (simp add: decodes_def)

lemma prefix_drop_append:
  assumes "prefix (a @ b) (drop g d)"
  shows "prefix b (drop (g + length a) d)"
proof -
  from assms obtain r where "drop g d = a @ b @ r" by (auto simp: prefix_def)
  then have "drop (length a) (drop g d) = b @ r" by simp
  then show ?thesis by (simp add: prefix_def add.commute)
qed

lemma prefix_append_drop:
  assumes "prefix a (drop g d)" and "prefix b (drop (g + length a) d)"
  shows "prefix (a @ b) (drop g d)"
proof -
  from assms(1) obtain r where r: "drop g d = a @ r" by (auto simp: prefix_def)
  then have "drop (length a) (drop g d) = r" by simp
  then have "drop (g + length a) d = r" by (simp add: add.commute)
  with assms(2) obtain r' where "r = b @ r'" by (auto simp: prefix_def)
  with r show ?thesis by (simp add: prefix_def)
qed

lemma prefix_drop_length:
  assumes "prefix bs (drop g d)" "bs \<noteq> []"
  shows "g + length bs \<le> length d"
proof -
  from assms obtain r where r: "drop g d = bs @ r" by (auto simp: prefix_def)
  then have "length (drop g d) = length bs + length r" by simp
  with assms(2) show ?thesis by (cases "g \<le> length d") auto
qed

lemma decodes_istream_read: "length bs = n \<Longrightarrow> decodes (istream_read n) bs bs"
proof (rule decodesI)
  fix st :: istream assume n: "length bs = n" and p: "prefix bs (drop (gpos st) (data st))"
  from p obtain r where r: "drop (gpos st) (data st) = bs @ r" by (auto simp: prefix_def)
  have "n = 0 \<or> gpos st + n \<le> length (data st)"
    using prefix_drop_length [OF p] n by (cases "bs = []") auto
  then show "istream_read n st = Some (Inr (bs, st\<lparr>gpos := gpos st + length bs\<rparr>))"
    using n r by (simp add: istream_read_def)
qed

lemma decodes_return: "decodes (\<lambda>st. Some (Inr (x, st))) [] x"
  by (simp add: decodes_def)

lemma decodes_bind:
  assumes "decodes p a x" and "decodes (k x) b y"
  shows "decodes (\<lambda>st. bind_res (p st) k) (a @ b) y"
proof (rule decodesI)
  fix st :: istream assume pre: "prefix (a @ b) (drop (gpos st) (data st))"
  then have "prefix a (drop (gpos st) (data st))" by (rule append_prefixD)
  from decodesD [OF assms(1) this]
  have 1: "p st = Some (Inr (x, st\<lparr>gpos := gpos st + length a\<rparr>))" .
  have "prefix b (drop (gpos (st\<lparr>gpos := gpos st + length a\<rparr>)) (data (st\<lparr>gpos := gpos st + length a\<rparr>)))"
    using prefix_drop_append [OF pre] by simp
  from decodesD [OF assms(2) this]
  show "bind_res (p st) k = Some (Inr (y, st\<lparr>gpos := gpos st + length (a @ b)\<rparr>))"
    by (simp add: 1 bind_res_def add.assoc)
qed

lemma decodes_read_le32: "decodes read_le32 (le_bytes 4 w) (w :: u32)"
proof -
  have "decodes (\<lambda>st. bind_res (istream_read 4 st) (\<lambda>buf st'. Some (Inr (le_to_host 4 buf :: u32, st'))))
          (le_bytes 4 w @ []) (le_to_host 4 (le_bytes 4 w))"
    by (rule decodes_bind [OF decodes_istream_read decodes_return]) simp
  then show ?thesis
    by (simp add: le_to_host_le_bytes32 decodes_def read_le32_def read_into_array_def)
qed

lemma decodes_read_le64: "decodes read_le64 (le_bytes 8 w) (w :: u64)"
proof -
  have "decodes (\<lambda>st. bind_res (istream_read 8 st) (\<lambda>buf st'. Some (Inr (le_to_host 8 buf :: u64, st'))))
          (le_bytes 8 w @ []) (le_to_host 8 (le_bytes 8 w))"
    by (rule decodes_bind [OF decodes_istream_read decodes_return]) simp
  then show ?thesis
    by (simp add: le_to_host_le_bytes64 decodes_def read_le64_def read_into_array_def)
qed

lemma decodes_read_into_vector: "length bs = n \<Longrightarrow> decodes (\<lambda>st. read_into_vector st n) bs bs"
  using decodes_istream_read [of bs n] by (simp add: decodes_def read_into_vector_def)

lemma encode_seq_Nil [simp]: "encode_len_prefixed_seq enc [] = []"
  by (simp add: encode_len_prefixed_seq_def)

lemma encode_seq_Cons:
  "encode_len_prefixed_seq enc (x # xs) =
     le_bytes 4 (word_of_nat (length (enc x)) :: u32) @ enc x @ encode_len_prefixed_seq enc xs"
  by (simp add: encode_len_prefixed_seq_def)

lemma unat_add_of_nat:
  "unat (p :: u32) + n < 2 ^ 32 \<Longrightarrow> unat (p + word_of_nat n) = unat p + n"
  by (simp add: unat_word_ariths unat_of_nat take_bit_nat_eq_self)

lemma seq_loop_decodes:
  assumes "\<And>x. x \<in> set xs \<Longrightarrow> decodes (f (word_of_nat (length (enc x)))) (enc x) x"
    and "unat p + length (encode_len_prefixed_seq enc xs) < 2 ^ 32"
  shows "decodes (parse_len_prefixed_seq_loop (p + word_of_nat (length (encode_len_prefixed_seq enc xs))) f p out)
           (encode_len_prefixed_seq enc xs) (out @ xs)"
  using assms
proof (induction xs arbitrary: p out)
  case Nil
  show ?case
    by (rule decodesI) (simp add: parse_len_prefixed_seq_loop.simps [of p f p])
next
  case (Cons x xs)
  let ?L = "word_of_nat (length (enc x)) :: u32"
  let ?rest = "encode_len_prefixed_seq enc xs"
  let ?N = "p + word_of_nat (length (encode_len_prefixed_seq enc (x # xs)))"
  let ?p' = "p + (4 + ?L)"
  have len: "length (encode_len_prefixed_seq enc (x # xs)) = 4 + length (enc x) + length ?rest"
    by (simp add: encode_seq_Cons)
  have bound: "unat p + (4 + length (enc x) + length ?rest) < 2 ^ 32"
    using Cons.prems(2) len by simp
  have uN: "unat ?N = unat p + (4 + length (enc x) + length ?rest)"
    unfolding len by (rule unat_add_of_nat) (rule bound)
  have p'eq: "?p' = p + word_of_nat (4 + length (enc x))" by simp
  have up': "unat ?p' = unat p + (4 + length (enc x))"
    unfolding p'eq using bound by (intro unat_add_of_nat) simp
  have lt: "p < ?N" using uN by (simp add: word_less_nat_alt)
  have nle: "\<not> ?N < ?p'" using uN up' by (simp add: word_less_nat_alt)
  have Neq: "?N = ?p' + word_of_nat (length ?rest)" by (simp add: len)
  have IH: "decodes (parse_len_prefixed_seq_loop ?N f ?p' (out @ [x])) ?rest ((out @ [x]) @ xs)"
    unfolding Neq
  proof (rule Cons.IH)
    show "\<And>y. y \<in> set xs \<Longrightarrow> decodes (f (word_of_nat (length (enc y)))) (enc y) y"
      using Cons.prems(1) by simp
    show "unat ?p' + length ?rest < 2 ^ 32" using up' bound by simp
  qed
  have fx: "decodes (f ?L) (enc x) x" using Cons.prems(1) by simp
  show ?case
  proof (rule decodesI)
    fix st :: istream assume pre: "prefix (encode_len_prefixed_seq enc (x # xs)) (drop (gpos st) (data st))"
    let ?st1 = "st\<lparr>gpos := gpos st + 4\<rparr>"
    let ?st2 = "st\<lparr>gpos := gpos st + 4 + length (enc x)\<rparr>"
    from pre have pre': "prefix (le_bytes 4 ?L @ enc x @ ?rest) (drop (gpos st) (data st))"
      by (simp add: encode_seq_Cons)
    then have "prefix (le_bytes 4 ?L) (drop (gpos st) (data st))" by (rule append_prefixD)
    from decodesD [OF decodes_read_le32 this]
    have r1: "read_le32 st = Some (Inr (?L, ?st1))" by simp
    have pre1: "prefix (enc x @ ?rest) (drop (gpos ?st1) (data ?st1))"
      using prefix_drop_append [OF pre'] by simp
    then have "prefix (enc x) (drop (gpos ?st1) (data ?st1))" by (rule append_prefixD)
    from decodesD [OF fx this]
    have r2: "f ?L ?st1 = Some (Inr (x, ?st2))" by simp
    have pre2: "prefix ?rest (drop (gpos ?st2) (data ?st2))"
      using prefix_drop_append [OF pre1] by simp
    from decodesD [OF IH pre2]
    have r3: "parse_len_prefixed_seq_loop ?N f ?p' (out @ [x]) ?st2 =
                Some (Inr (out @ x # xs, st\<lparr>gpos := gpos st + length (encode_len_prefixed_seq enc (x # xs))\<rparr>))"
      by (simp add: len add.assoc)
    show "parse_len_prefixed_seq_loop ?N f p out st =
            Some (Inr (out @ x # xs, st\<lparr>gpos := gpos st + length (encode_len_prefixed_seq enc (x # xs))\<rparr>))"
      apply (subst parse_len_prefixed_seq_loop.simps)
      using lt nle r1 r2 r3 by (simp add: Let_def)
  qed
qed

lemma of_nat_unat32: "n < 2 ^ 32 \<Longrightarrow> unat (word_of_nat n :: u32) = n"
  by (simp add: unat_of_nat take_bit_nat_eq_self)

lemma decodes_parse_digest:
  assumes "fits_u32 (digest_data d)"
  shows "decodes (parse_digest len) (encode_digest d) d"
proof -
  let ?n = "word_of_nat (length (digest_data d)) :: u32"
  have n: "unat ?n = length (digest_data d)"
    using assms by (simp add: fits_u32_def of_nat_unat32)
  have "decodes (\<lambda>st. bind_res (read_le32 st) (\<lambda>sig_algo_id st1.
     bind_res (read_le32 st1) (\<lambda>digest_data_len st2.
     bind_res (read_into_vector st2 (unat digest_data_len)) (\<lambda>digest_data st3.
       Some (Inr (\<lparr>digest_sig_algo_id = sig_algo_id, digest_data = digest_data\<rparr>, st3))))))
     (le_bytes 4 (digest_sig_algo_id d) @ le_bytes 4 ?n @ digest_data d @ [])
     \<lparr>digest_sig_algo_id = digest_sig_algo_id d, digest_data = digest_data d\<rparr>"
    by (rule decodes_bind decodes_read_le32 decodes_read_into_vector decodes_return | simp add: n)+
  then show ?thesis
    by (simp add: decodes_def parse_digest_def encode_digest_def)
qed

lemma decodes_parse_add_attr:
  assumes "fits_u32 (add_attr_value a)"
  shows "decodes (parse_add_attr len) (encode_add_attr a) a"
proof -
  let ?n = "word_of_nat (length (add_attr_value a)) :: u32"
  have n: "unat ?n = length (add_attr_value a)"
    using assms by (simp add: fits_u32_def of_nat_unat32)
  have "decodes (\<lambda>st. bind_res (read_le32 st) (\<lambda>attr_id st1.
     bind_res (read_le32 st1) (\<lambda>value_len st2.
     bind_res (read_into_vector st2 (unat value_len)) (\<lambda>val st3.
       Some (Inr (\<lparr>add_attr_id = attr_id, add_attr_value = val\<rparr>, st3))))))
     (le_bytes 4 (add_attr_id a) @ le_bytes 4 ?n @ add_attr_value a @ [])
     \<lparr>add_attr_id = add_attr_id a, add_attr_value = add_attr_value a\<rparr>"
    by (rule decodes_bind decodes_read_le32 decodes_read_into_vector decodes_return | simp add: n)+
  then show ?thesis
    by (simp add: decodes_def parse_add_attr_def encode_add_attr_def)
qed

lemma decodes_parse_signature:
  assumes "fits_u32 (signature_data g)"
  shows "decodes (parse_signature len) (encode_signature g) g"
proof -
  let ?n = "word_of_nat (length (signature_data g)) :: u32"
  have n: "unat ?n = length (signature_data g)"
    using assms by (simp add: fits_u32_def of_nat_unat32)
  have "decodes (\<lambda>st. bind_res (read_le32 st) (\<lambda>sig_algo_id st1.
     bind_res (read_le32 st1) (\<lambda>sig_data_len st2.
     bind_res (read_into_vector st2 (unat sig_data_len)) (\<lambda>sig_data st3.
       Some (Inr (\<lparr>signature_sig_algo_id = sig_algo_id, signature_data = sig_data\<rparr>, st3))))))
     (le_bytes 4 (signature_sig_algo_id g) @ le_bytes 4 ?n @ signature_data g @ [])
     \<lparr>signature_sig_algo_id = signature_sig_algo_id g, signature_data = signature_data g\<rparr>"
    by (rule decodes_bind decodes_read_le32 decodes_read_into_vector decodes_return | simp add: n)+
  then show ?thesis
    by (simp add: decodes_def parse_signature_def encode_signature_def)
qed

lemma decodes_parse_certificate:
  assumes "fits_u32 c"
  shows "decodes (parse_certificate (word_of_nat (length (encode_certificate c)))) (encode_certificate c) c"
  using assms decodes_read_into_vector [of c "length c"]
  by (simp add: decodes_def parse_certificate_def encode_certificate_def fits_u32_def of_nat_unat32)

lemma decodes_parse_public_key:
  assumes "fits_u32 pk"
  shows "decodes (parse_public_key (word_of_nat (length pk))) pk pk"
  using assms decodes_read_into_vector [of pk "length pk"]
  by (simp add: decodes_def parse_public_key_def fits_u32_def of_nat_unat32)

lemma decodes_len_prefixed_seq:
  assumes dec: "\<And>x. x \<in> set xs \<Longrightarrow> decodes (f (word_of_nat (length (enc x)))) (enc x) x"
    and fits: "fits_u32 (encode_len_prefixed_seq enc xs)"
    and k: "decodes (k xs) bs y"
  shows "decodes (\<lambda>st. bind_res (read_le32 st) (\<lambda>seq_len st1. bind_res (parse_len_prefixed_seq seq_len st1 f) k))
           (encode_len_prefixed (encode_len_prefixed_seq enc xs) @ bs) y"
proof -
  let ?e = "encode_len_prefixed_seq enc xs"
  have "decodes (parse_len_prefixed_seq_loop (0 + word_of_nat (length ?e)) f 0 []) ?e ([] @ xs)"
    by (rule seq_loop_decodes [OF dec]) (use fits in \<open>simp_all add: fits_u32_def\<close>)
  then have 1: "decodes (\<lambda>st. parse_len_prefixed_seq (word_of_nat (length ?e)) st f) ?e xs"
    by (simp add: parse_len_prefixed_seq_def decodes_def)
  have "decodes (\<lambda>st. bind_res (read_le32 st) (\<lambda>seq_len st1. bind_res (parse_len_prefixed_seq seq_len st1 f) k))
          (le_bytes 4 (word_of_nat (length ?e) :: u32) @ ?e @ bs) y"
    by (rule decodes_bind decodes_read_le32 1 k)+
  then show ?thesis by (simp add: encode_len_prefixed_def)
qed

lemma length_encode_seq_mem:
  "x \<in> set xs \<Longrightarrow> 4 + length (enc x) \<le> length (encode_len_prefixed_seq enc xs)"
  by (induction xs) (auto simp: encode_seq_Cons)

lemma fits_u32_seq_mem:
  "fits_u32 (encode_len_prefixed_seq enc xs) \<Longrightarrow> x \<in> set xs \<Longrightarrow> fits_u32 (enc x)"
  using length_encode_seq_mem [of x xs enc] by (simp add: fits_u32_def)

lemma decodes_read_le32_any:
  assumes that: "decodes k cs y" and "length bs = 4"
  shows "decodes (\<lambda>st. bind_res (read_le32 st) (\<lambda>x. k)) (bs @ cs) y"
proof -
  have "decodes (\<lambda>st. bind_res (istream_read 4 st) (\<lambda>buf st'. Some (Inr (le_to_host 4 buf :: u32, st'))))
          (bs @ []) (le_to_host 4 bs)"
    by (rule decodes_bind [OF decodes_istream_read decodes_return]) (rule assms(2))
  then have "decodes read_le32 bs (le_to_host 4 bs)"
    by (simp add: decodes_def read_le32_def read_into_array_def)
  from decodes_bind [OF this, of "\<lambda>x. k"] that show ?thesis by simp
qed

lemma decodes_parse_v2_signed_data:
  assumes f1: "fits_u32 (encode_len_prefixed_seq encode_digest (digests sd))"
    and f2: "fits_u32 (encode_len_prefixed_seq encode_certificate (certificates sd))"
    and f3: "fits_u32 (encode_len_prefixed_seq encode_add_attr (add_attrs sd))"
    and tr: "length trailer = 4"
  shows "decodes (parse_v2_signed_data len) (encode_v2_signed_data sd @ trailer) sd"
proof -
  have fd: "fits_u32 (digest_data x)" if "x \<in> set (digests sd)" for x
    using fits_u32_seq_mem [OF f1 that] by (simp add: fits_u32_def encode_digest_def)
  have fa: "fits_u32 (add_attr_value x)" if "x \<in> set (add_attrs sd)" for x
    using fits_u32_seq_mem [OF f3 that] by (simp add: fits_u32_def encode_add_attr_def)
  have fc: "fits_u32 x" if "x \<in> set (certificates sd)" for x
    using fits_u32_seq_mem [OF f2 that] by (simp add: encode_certificate_def)
  have "decodes (\<lambda>st. bind_res (read_le32 st) (\<lambda>digests_seq_len st1.
     bind_res (parse_len_prefixed_seq digests_seq_len st1 parse_digest) (\<lambda>ds st2.
     bind_res (read_le32 st2) (\<lambda>certificates_seq_len st3.
     bind_res (parse_len_prefixed_seq certificates_seq_len st3 parse_certificate) (\<lambda>cs st4.
     bind_res (read_le32 st4) (\<lambda>add_attrs_seq_len st5.
     bind_res (parse_len_prefixed_seq add_attrs_seq_len st5 parse_add_attr) (\<lambda>as st6.
     bind_res (read_le32 st6) (\<lambda>x st7.
       Some (Inr (\<lparr>digests = ds, certificates = cs, add_attrs = as\<rparr>, st7))))))))))
     (encode_len_prefixed (encode_len_prefixed_seq encode_digest (digests sd)) @
      encode_len_prefixed (encode_len_prefixed_seq encode_certificate (certificates sd)) @
      encode_len_prefixed (encode_len_prefixed_seq encode_add_attr (add_attrs sd)) @
      trailer @ [])
     \<lparr>digests = digests sd, certificates = certificates sd, add_attrs = add_attrs sd\<rparr>"
    apply (rule decodes_len_prefixed_seq [OF decodes_parse_digest [OF fd] f1], assumption)
    apply (rule decodes_len_prefixed_seq [OF decodes_parse_certificate [OF fc] f2], assumption)
    apply (rule decodes_len_prefixed_seq [OF decodes_parse_add_attr [OF fa] f3], assumption)
    apply (rule decodes_read_le32_any [OF _ tr])
    apply (rule decodes_return)
    done
  then show ?thesis
    by (simp add: decodes_def parse_v2_signed_data_def encode_v2_signed_data_def)
qed

lemma length_encode_len_prefixed [simp]: "length (encode_len_prefixed bs) = 4 + length bs"
  by (simp add: encode_len_prefixed_def)

lemma decodes_parse_v2_signer:
  assumes fits: "fits_u32 (encode_v2_signer trailer sg)" and tr: "length trailer = 4"
  shows "decodes (parse_v2_signer len) (encode_v2_signer trailer sg) sg"
proof -
  let ?sd = "signed_data sg"
  have f1: "fits_u32 (encode_len_prefixed_seq encode_digest (digests ?sd))"
    and f2: "fits_u32 (encode_len_prefixed_seq encode_certificate (certificates ?sd))"
    and f3: "fits_u32 (encode_len_prefixed_seq encode_add_attr (add_attrs ?sd))"
    and f4: "fits_u32 (encode_len_prefixed_seq encode_signature (signatures sg))"
    and f5: "fits_u32 (public_key sg)"
    using fits by (simp_all add: fits_u32_def encode_v2_signer_def encode_v2_signed_data_def)
  have fs: "fits_u32 (signature_data x)" if "x \<in> set (signatures sg)" for x
    using fits_u32_seq_mem [OF f4 that] by (simp add: fits_u32_def encode_signature_def)
  have sd: "decodes (parse_v2_signed_data l) (encode_v2_signed_data ?sd @ trailer) ?sd" for l
    by (rule decodes_parse_v2_signed_data [OF f1 f2 f3 tr])
  have pk: "unat (word_of_nat (length (public_key sg)) :: u32) = length (public_key sg)"
    using f5 by (simp add: fits_u32_def of_nat_unat32)
  have "decodes (\<lambda>st. bind_res (read_le32 st) (\<lambda>signed_data_len st1.
     bind_res (parse_v2_signed_data signed_data_len st1) (\<lambda>sd st2.
     bind_res (read_le32 st2) (\<lambda>signatures_seq_len st3.
     bind_res (parse_len_prefixed_seq signatures_seq_len st3 parse_signature) (\<lambda>sigs st4.
     bind_res (read_le32 st4) (\<lambda>public_key_len st5.
     bind_res (parse_public_key public_key_len st5) (\<lambda>pk st6.
       Some (Inr (\<lparr>signed_data = sd, signatures = sigs, public_key = pk\<rparr>, st6)))))))))
     (le_bytes 4 (word_of_nat (length (encode_v2_signed_data ?sd @ trailer)) :: u32) @
      (encode_v2_signed_data ?sd @ trailer) @
      encode_len_prefixed (encode_len_prefixed_seq encode_signature (signatures sg)) @
      le_bytes 4 (word_of_nat (length (public_key sg)) :: u32) @ public_key sg @ [])
     \<lparr>signed_data = ?sd, signatures = signatures sg, public_key = public_key sg\<rparr>"
    apply (rule decodes_bind [OF decodes_read_le32])
    apply (rule decodes_bind [OF sd])
    apply (rule decodes_len_prefixed_seq [OF decodes_parse_signature [OF fs] f4], assumption)
    apply (rule decodes_bind [OF decodes_read_le32])
    apply (rule decodes_bind [OF decodes_parse_public_key [OF f5]])
    apply (rule decodes_return)
    done
  then show ?thesis
    by (simp add: decodes_def parse_v2_signer_def encode_v2_signer_def encode_len_prefixed_def)
qed

lemma decodes_parse_v2_block:
  assumes "wf_v2_block trailer b"
  shows "decodes (parse_v2_block (word_of_nat (length (encode_v2_block trailer b))))
           (encode_v2_block trailer b) b"
proof -
  let ?e = "encode_len_prefixed_seq (encode_v2_signer trailer) (signers b)"
  from assms have tr: "length trailer = 4" and fits: "fits_u32 ?e"
    by (simp_all add: wf_v2_block_def encode_v2_block_def)
  have sg: "decodes (parse_v2_signer l) (encode_v2_signer trailer x) x" if "x \<in> set (signers b)" for x l
    by (rule decodes_parse_v2_signer [OF fits_u32_seq_mem [OF fits that] tr])
  have "decodes (parse_len_prefixed_seq_loop (0 + word_of_nat (length ?e)) parse_v2_signer 0 []) ?e ([] @ signers b)"
    by (rule seq_loop_decodes [OF sg]) (use fits in \<open>simp_all add: fits_u32_def\<close>)
  then have 1: "decodes (\<lambda>st. parse_len_prefixed_seq (word_of_nat (length ?e)) st parse_v2_signer) ?e (signers b)"
    by (simp add: parse_len_prefixed_seq_def decodes_def)
  have "decodes (\<lambda>st. bind_res (parse_len_prefixed_seq (word_of_nat (length ?e)) st parse_v2_signer)
                 (\<lambda>sgs st1. Some (Inr (\<lparr>signers = sgs\<rparr>, st1)))) (?e @ []) \<lparr>signers = signers b\<rparr>"
    by (rule decodes_bind [OF 1 decodes_return])
  then show ?thesis
    by (simp add: decodes_def parse_v2_block_def encode_v2_block_def)
qed

section \<open>One pair of the walk\<close>

lemma sint_add8:
  assumes "unat (pair_len :: u64) + 8 < 2 ^ 63"
  shows "sint (pair_len + 8) = int (unat pair_len) + 8"
proof -
  have u: "unat (pair_len + 8) = unat pair_len + 8"
    using assms by (simp add: unat_word_ariths)
  have k: "uint (pair_len + 8) = int (unat pair_len + 8)"
    unfolding uint_nat u ..
  have "sint (pair_len + 8) = signed_take_bit 63 (uint (pair_len + 8))"
    by (simp add: sint_uint)
  also have "\<dots> = signed_take_bit 63 (int (unat pair_len + 8))"
    unfolding k ..
  also have "\<dots> = int (unat pair_len + 8)"
  proof (rule signed_take_bit_int_eq_self)
    show "- (2 ^ 63) \<le> int (unat pair_len + 8)" by simp
    have "int (unat pair_len + 8) < int (2 ^ 63)" using assms by (simp only: of_nat_less_iff)
    then show "int (unat pair_len + 8) < 2 ^ 63" by simp
  qed
  finally show ?thesis by simp
qed

lemma seekg_nonneg: "0 \<le> i \<Longrightarrow> seekg i st = Some (Inr ((), st\<lparr>gpos := nat i\<rparr>))"
  by (simp add: seekg_def)

lemma parse_pair_header:
  fixes s :: siginfo
  assumes i: "0 \<le> i"
    and pre: "prefix (le_bytes 8 pair_len @ le_bytes 4 pid @ rest) (drop (nat i) (data (ifs s)))"
  shows "seekg i (ifs s) = Some (Inr ((), (ifs s)\<lparr>gpos := nat i\<rparr>))"
    and "read_le64 ((ifs s)\<lparr>gpos := nat i\<rparr>) = Some (Inr (pair_len, (ifs s)\<lparr>gpos := nat i + 8\<rparr>))"
    and "read_le32 ((ifs s)\<lparr>gpos := nat i + 8\<rparr>) = Some (Inr (pid, (ifs s)\<lparr>gpos := nat i + 12\<rparr>))"
    and "prefix rest (drop (nat i + 12) (data (ifs s)))"
proof -
  show "seekg i (ifs s) = Some (Inr ((), (ifs s)\<lparr>gpos := nat i\<rparr>))"
    using i by (rule seekg_nonneg)
  have p8: "prefix (le_bytes 8 pair_len) (drop (nat i) (data (ifs s)))"
    using pre by (rule append_prefixD)
  show "read_le64 ((ifs s)\<lparr>gpos := nat i\<rparr>) = Some (Inr (pair_len, (ifs s)\<lparr>gpos := nat i + 8\<rparr>))"
    using decodesD [OF decodes_read_le64, of pair_len "(ifs s)\<lparr>gpos := nat i\<rparr>"] p8 by simp
  have p4': "prefix (le_bytes 4 pid @ rest) (drop (nat i + 8) (data (ifs s)))"
    using prefix_drop_append [OF pre] by simp
  then have p4: "prefix (le_bytes 4 pid) (drop (nat i + 8) (data (ifs s)))"
    by (rule append_prefixD)
  show "read_le32 ((ifs s)\<lparr>gpos := nat i + 8\<rparr>) = Some (Inr (pid, (ifs s)\<lparr>gpos := nat i + 12\<rparr>))"
    using decodesD [OF decodes_read_le32, of pid "(ifs s)\<lparr>gpos := nat i + 8\<rparr>"] p4 by simp
  show "prefix rest (drop (nat i + 12) (data (ifs s)))"
    using prefix_drop_append [OF p4'] by (simp add: add.assoc)
qed

lemma streamoff_id:
  assumes "- (2 ^ 63) \<le> x" and "x < 2 ^ 63"
  shows "streamoff x = x"
proof -
  have "streamoff x = signed_take_bit 63 x"
    by (simp add: streamoff_def sint_sbintrunc')
  also have "\<dots> = x"
    using assms by (intro signed_take_bit_int_eq_self) simp_all
  finally show ?thesis .
qed

lemma next_index:
  fixes pair_len :: u64
  assumes "0 \<le> i" and "i + int (unat pair_len) + 8 < 2 ^ 63"
  shows "streamoff (i + sint (pair_len + 8)) = i + int (unat pair_len) + 8"
proof -
  have "int (unat pair_len + 8) < 2 ^ 63" using assms by simp
  then have "int (unat pair_len + 8) < int (2 ^ 63)" by simp
  then have "unat pair_len + 8 < 2 ^ 63" by (simp only: of_nat_less_iff)
  then have "sint (pair_len + 8) = int (unat pair_len) + 8" by (rule sint_add8)
  then have "streamoff (i + sint (pair_len + 8)) = streamoff (i + int (unat pair_len) + 8)"
    by (simp add: add.assoc)
  also have "\<dots> = i + int (unat pair_len) + 8"
    using assms by (intro streamoff_id) simp_all
  finally show ?thesis .
qed

lemma parse_pair_other_step:
  fixes s :: siginfo and pair_len :: u64
  assumes "0 \<le> i"
    and "prefix (le_bytes 8 pair_len @ le_bytes 4 pid) (drop (nat i) (data (ifs s)))"
    and "pid \<noteq> v2_id"
  shows "parse_pair s i =
           Some (Inr (streamoff (i + sint (pair_len + 8))),
                 s\<lparr>ifs := (ifs s)\<lparr>gpos := nat i + 12\<rparr>,
                   v3_block_pos := (if pid = v3_id then i + 12 else v3_block_pos s),
                   v3_1_block_pos := (if pid = v3_1_id then i + 12 else v3_1_block_pos s)\<rparr>)"
proof -
  from assms(2) have pre: "prefix (le_bytes 8 pair_len @ le_bytes 4 pid @ []) (drop (nat i) (data (ifs s)))"
    by simp
  note h = parse_pair_header [OF assms(1) pre]
  have ne: "v3_id \<noteq> v3_1_id" by (simp add: v3_id_def v3_1_id_def)
  show ?thesis
    using assms(1,3) ne by (simp add: parse_pair_def h tellg_def)
qed

lemma parse_pair_v2_step:
  fixes s :: siginfo and pair_len :: u64
  assumes "0 \<le> i"
    and "prefix (le_bytes 8 pair_len @ le_bytes 4 v2_id @ le_bytes 4 v2_block_len)
           (drop (nat i) (data (ifs s)))"
  shows "parse_pair s i =
           (case parse_v2_block v2_block_len ((ifs s)\<lparr>gpos := nat i + 16\<rparr>) of
              None \<Rightarrow> None
            | Some (Inl (e, st')) \<Rightarrow> Some (Inl e, s\<lparr>ifs := st', v2_block_pos := i + 12\<rparr>)
            | Some (Inr (b, st')) \<Rightarrow>
                Some (Inr (streamoff (i + sint (pair_len + 8))),
                      s\<lparr>ifs := st', v2_block_pos := i + 12, v2_block_of := b\<rparr>))"
proof -
  note h = parse_pair_header [OF assms]
  have r: "read_le32 ((ifs s)\<lparr>gpos := nat i + 12\<rparr>) =
             Some (Inr (v2_block_len, (ifs s)\<lparr>gpos := nat i + 16\<rparr>))"
    using decodesD [OF decodes_read_le32, of v2_block_len "(ifs s)\<lparr>gpos := nat i + 12\<rparr>"] h(4)
    by simp
  show ?thesis
    using assms(1)
    by (simp add: parse_pair_def h r tellg_def Let_def split: option.split sum.split prod.split)
qed

section \<open>The decoders keep the file and throw only their own errors\<close>

lemma soundI:
  "(\<And>st x st'. p st = Some (Inr (x, st')) \<Longrightarrow> data st' = data st) \<Longrightarrow>
   (\<And>st e st'. p st = Some (Inl (e, st')) \<Longrightarrow> data st' = data st) \<Longrightarrow>
   (\<And>st e st'. p st = Some (Inl (e, st')) \<Longrightarrow> decoder_error e) \<Longrightarrow> sound p"
  by (auto simp: sound_def keeps_data_def throws_decoder_error_def)

lemma sound_data: "sound p \<Longrightarrow> p st = Some (Inr (x, st')) \<Longrightarrow> data st' = data st"
  by (auto simp: sound_def keeps_data_def)

lemma sound_edata: "sound p \<Longrightarrow> p st = Some (Inl (e, st')) \<Longrightarrow> data st' = data st"
  by (auto simp: sound_def keeps_data_def)

lemma sound_error: "sound p \<Longrightarrow> p st = Some (Inl (e, st')) \<Longrightarrow> decoder_error e"
  by (auto simp: sound_def throws_decoder_error_def)

lemma sound_istream_read: "sound (istream_read n)"
  by (rule soundI) (auto simp: istream_read_def decoder_error_def split: if_splits)

lemma sound_return: "sound (\<lambda>st. Some (Inr (x, st)))"
  by (rule soundI) auto

lemma sound_bind:
  assumes "sound p" and "\<And>x. sound (k x)"
  shows "sound (\<lambda>st. bind_res (p st) k)"
proof (rule soundI)
  fix st :: istream and y st'
  assume "bind_res (p st) k = Some (Inr (y, st'))"
  then obtain x st1 where 1: "p st = Some (Inr (x, st1))" and 2: "k x st1 = Some (Inr (y, st'))"
    by (auto simp: bind_res_def split: option.splits sum.splits)
  from sound_data [OF assms(1) 1] sound_data [OF assms(2) 2]
  show "data st' = data st" by simp
next
  fix st :: istream and e st'
  assume "bind_res (p st) k = Some (Inl (e, st'))"
  then consider "p st = Some (Inl (e, st'))"
    | x st1 where "p st = Some (Inr (x, st1))" "k x st1 = Some (Inl (e, st'))"
    by (auto simp: bind_res_def split: option.splits sum.splits)
  then show "data st' = data st"
  proof cases
    case 1
    then show ?thesis by (rule sound_edata [OF assms(1)])
  next
    case 2
    from sound_data [OF assms(1) 2(1)] sound_edata [OF assms(2) 2(2)] show ?thesis by simp
  qed
next
  fix st :: istream and e st'
  assume "bind_res (p st) k = Some (Inl (e, st'))"
  then consider "p st = Some (Inl (e, st'))"
    | x st1 where "p st = Some (Inr (x, st1))" "k x st1 = Some (Inl (e, st'))"
    by (auto simp: bind_res_def split: option.splits sum.splits)
  then show "decoder_error e"
    using sound_error [OF assms(1)] sound_error [OF assms(2)] by cases auto
qed

lemma sound_read_le32: "sound read_le32"
  unfolding read_le32_def [abs_def] read_into_array_def
  by (intro sound_bind sound_istream_read sound_return)

lemma sound_read_le64: "sound read_le64"
  unfolding read_le64_def [abs_def] read_into_array_def
  by (intro sound_bind sound_istream_read sound_return)

lemma sound_read_into_vector: "sound (\<lambda>st. read_into_vector st n)"
  unfolding read_into_vector_def by (rule sound_istream_read)

lemma seq_loop_sound_aux:
  assumes "parse_len_prefixed_seq_loop seq_len f parsed_len out st = Some r"
  shows "(\<forall>len. sound (f len)) \<longrightarrow>
         (case r of Inl (e, st') \<Rightarrow> decoder_error e \<and> data st' = data st
          | Inr (xs, st') \<Rightarrow> data st' = data st)"
  using assms
proof (induction rule: parse_len_prefixed_seq_loop.raw_induct [rotated 1, consumes 1, case_names step])
  case (step loop seq_len f parsed_len out st r)
  note 1 = step
  show ?case
  proof
    assume f: "\<forall>len. sound (f len)"
    show "case r of Inl (e, st') \<Rightarrow> decoder_error e \<and> data st' = data st
          | Inr (xs, st') \<Rightarrow> data st' = data st"
    proof (cases "parsed_len < seq_len")
      case False
      with 1(2) show ?thesis by auto
    next
      case True
      show ?thesis
      proof (cases "read_le32 st")
        case None
        with 1(2) True show ?thesis by simp
      next
        case (Some a)
        show ?thesis
        proof (cases a)
          case (Inl e)
          obtain err ste where e: "e = (err, ste)" by (cases e)
          from Some Inl e have "read_le32 st = Some (Inl (err, ste))" by simp
          from sound_error [OF sound_read_le32 this] sound_edata [OF sound_read_le32 this]
            Some Inl e 1(2) True
          show ?thesis by auto
        next
          case (Inr b)
          obtain len st1 where b: "b = (len, st1)" by (cases b)
          have d1: "data st1 = data st"
            using sound_data [OF sound_read_le32, of st len st1] Some Inr b by simp
          show ?thesis
          proof (cases "f len st1")
            case None
            with 1(2) True Some Inr b show ?thesis by simp
          next
            case (Some c)
            note fc = this
            show ?thesis
            proof (cases c)
              case (Inl e)
              obtain err ste where e: "e = (err, ste)" by (cases e)
              from fc Inl e have fe: "f len st1 = Some (Inl (err, ste))" by simp
              have "decoder_error err" "data ste = data st"
                using sound_error [of "f len" st1 err ste] sound_edata [of "f len" st1 err ste]
                  f fe d1 by simp_all
              with 1(2) True \<open>read_le32 st = Some a\<close> Inr b fc Inl e show ?thesis by auto
            next
              case (Inr d)
              then obtain x st2 where d: "c = Inr (x, st2)" by (cases d) auto
              have d2: "data st2 = data st1"
                using sound_data [of "f len" st1 x st2] f fc d by simp
              show ?thesis
              proof (cases "seq_len < parsed_len + (4 + len)")
                case True
                with 1(2) \<open>parsed_len < seq_len\<close> \<open>read_le32 st = Some a\<close> \<open>a = Inr b\<close> b fc d d1 d2
                show ?thesis by (auto simp: Let_def decoder_error_def)
              next
                case False
                with 1(2) \<open>parsed_len < seq_len\<close> \<open>read_le32 st = Some a\<close> \<open>a = Inr b\<close> b fc d
                have "loop seq_len f (parsed_len + (4 + len)) (out @ [x]) st2 = Some r"
                  by (simp add: Let_def)
                from 1(1) [OF this] f d1 d2 show ?thesis
                  by (auto split: sum.splits prod.splits)
              qed
            qed
          qed
        qed
      qed
    qed
  qed
qed

lemma sound_seq_loop:
  assumes f: "\<And>len. sound (f len)"
  shows "sound (parse_len_prefixed_seq_loop seq_len f parsed_len out)"
proof (rule soundI)
  fix st :: istream and xs st'
  assume "parse_len_prefixed_seq_loop seq_len f parsed_len out st = Some (Inr (xs, st'))"
  from seq_loop_sound_aux [OF this] f show "data st' = data st" by simp
next
  fix st :: istream and e st'
  assume "parse_len_prefixed_seq_loop seq_len f parsed_len out st = Some (Inl (e, st'))"
  from seq_loop_sound_aux [OF this] f show "data st' = data st" by simp
next
  fix st :: istream and e st'
  assume "parse_len_prefixed_seq_loop seq_len f parsed_len out st = Some (Inl (e, st'))"
  from seq_loop_sound_aux [OF this] f show "decoder_error e" by simp
qed

lemma sound_parse_len_prefixed_seq:
  "(\<And>len. sound (f len)) \<Longrightarrow> sound (\<lambda>st. parse_len_prefixed_seq seq_len st f)"
  unfolding parse_len_prefixed_seq_def by (rule sound_seq_loop)

lemma sound_parse_digest: "sound (parse_digest len)"
  unfolding parse_digest_def [abs_def]
  by (intro sound_bind sound_read_le32 sound_read_into_vector sound_return)

lemma sound_parse_certificate: "sound (parse_certificate len)"
  unfolding parse_certificate_def [abs_def] by (rule sound_read_into_vector)

lemma sound_parse_add_attr: "sound (parse_add_attr len)"
  unfolding parse_add_attr_def [abs_def]
  by (intro sound_bind sound_read_le32 sound_read_into_vector sound_return)

lemma sound_parse_signature: "sound (parse_signature len)"
  unfolding parse_signature_def [abs_def]
  by (intro sound_bind sound_read_le32 sound_read_into_vector sound_return)

lemma sound_parse_public_key: "sound (parse_public_key len)"
  unfolding parse_public_key_def [abs_def] by (rule sound_read_into_vector)

lemma sound_parse_v2_signed_data: "sound (parse_v2_signed_data len)"
  unfolding parse_v2_signed_data_def [abs_def]
  by (intro sound_bind sound_read_le32 sound_parse_len_prefixed_seq sound_return
        sound_parse_digest sound_parse_certificate sound_parse_add_attr)

lemma sound_parse_v2_signer: "sound (parse_v2_signer len)"
  unfolding parse_v2_signer_def [abs_def]
  by (intro sound_bind sound_read_le32 sound_parse_len_prefixed_seq sound_return
        sound_parse_v2_signed_data sound_parse_signature sound_parse_public_key)

lemma sound_parse_v2_block: "sound (parse_v2_block len)"
  unfolding parse_v2_block_def [abs_def]
  by (intro sound_bind sound_parse_len_prefixed_seq sound_return sound_parse_v2_signer)

section \<open>What the walk may change\<close>

lemma walk_inv_refl: "walk_inv s s"
  by (simp add: walk_inv_def)

lemma walk_inv_trans: "walk_inv s s1 \<Longrightarrow> walk_inv s1 s2 \<Longrightarrow> walk_inv s s2"
  unfolding walk_inv_def by (elim conjE) (simp, metis)

lemma walk_inv_ifs: "data st = data (ifs s) \<Longrightarrow> walk_inv s (s\<lparr>ifs := st\<rparr>)"
  by (simp add: walk_inv_def)

lemma seekg_data: "seekg p st = Some (Inr (u, st')) \<Longrightarrow> data st' = data st"
  by (auto simp: seekg_def split: if_splits)

lemma seekg_error: "seekg p st = Some (Inl (e, st')) \<Longrightarrow> e = ios_failure \<and> st' = st"
  by (auto simp: seekg_def split: if_splits)

lemma seekg_Some: "seekg p st \<noteq> None"
  by (simp add: seekg_def)

lemma read_le32_id_at:
  assumes "read_le32 st = Some (Inr (w, st'))"
  shows "id_at (data st) (tellg st') w" and "data st' = data st"
  using assms
  by (auto simp: read_le32_def read_into_array_def istream_read_def bind_res_def id_at_def tellg_def
      split: if_splits)

lemma istream_read_error:
  "istream_read n st = Some (Inl (e, st')) \<Longrightarrow> e = ios_failure \<and> data st' = data st"
  by (auto simp: istream_read_def split: if_splits)

lemma read_le32_error:
  "read_le32 st = Some (Inl (e, st')) \<Longrightarrow> e = ios_failure \<and> data st' = data st"
  by (auto simp: read_le32_def read_into_array_def istream_read_def bind_res_def split: if_splits)

lemma read_le64_error:
  "read_le64 st = Some (Inl (e, st')) \<Longrightarrow> e = ios_failure \<and> data st' = data st"
  by (auto simp: read_le64_def read_into_array_def istream_read_def bind_res_def split: if_splits)

lemma read_le64_data: "read_le64 st = Some (Inr (w, st')) \<Longrightarrow> data st' = data st"
  by (rule sound_data [OF sound_read_le64])

lemma decoded_atI:
  "read_le32 st = Some (Inr (len, st1)) \<Longrightarrow> parse_v2_block len st1 = Some (Inr (b, st2)) \<Longrightarrow>
     decoded_at (data st) (gpos st) b"
  by (cases st) (simp add: decoded_at_def)

lemma parse_pair_inv:
  assumes "parse_pair s i = Some (r, s')"
  shows "walk_inv s s'" and "\<And>e. r = Inl e \<Longrightarrow> decoder_error e"
proof -
  have "walk_inv s s' \<and> (\<forall>e. r = Inl e \<longrightarrow> decoder_error e)"
  proof (cases "seekg i (ifs s)")
    case None
    then show ?thesis by (simp add: seekg_Some)
  next
    case (Some a)
    show ?thesis
    proof (cases a)
      case (Inl e)
      obtain err ste where e: "e = (err, ste)" by (cases e)
      with Some Inl assms seekg_error [of i "ifs s" err ste] show ?thesis
        by (auto simp: parse_pair_def walk_inv_refl decoder_error_def)
    next
      case (Inr b)
      then obtain u st1 where sk: "seekg i (ifs s) = Some (Inr (u, st1))"
        using Some by (cases b) auto
      have d1: "data st1 = data (ifs s)" using seekg_data [OF sk] .
      show ?thesis
      proof (cases "read_le64 st1")
        case None
        with sk assms show ?thesis by (simp add: parse_pair_def)
      next
        case (Some a2)
        show ?thesis
        proof (cases a2)
          case (Inl e)
          obtain err ste where e: "e = (err, ste)" by (cases e)
          with Some Inl sk assms read_le64_error [of st1 err ste] d1 show ?thesis
            by (auto simp: parse_pair_def walk_inv_ifs decoder_error_def)
        next
          case (Inr b2)
          then obtain pair_len st2 where r64: "read_le64 st1 = Some (Inr (pair_len, st2))"
            using Some by (cases b2) auto
          have d2: "data st2 = data (ifs s)" using read_le64_data [OF r64] d1 by simp
          show ?thesis
          proof (cases "read_le32 st2")
            case None
            with sk r64 assms show ?thesis by (simp add: parse_pair_def)
          next
            case (Some a3)
            show ?thesis
            proof (cases a3)
              case (Inl e)
              obtain err ste where e: "e = (err, ste)" by (cases e)
              with Some Inl sk r64 assms read_le32_error [of st2 err ste] d2 show ?thesis
                by (auto simp: parse_pair_def walk_inv_ifs decoder_error_def)
            next
              case (Inr b3)
              then obtain pid st3 where r32: "read_le32 st2 = Some (Inr (pid, st3))"
                using Some by (cases b3) auto
              have d3: "data st3 = data (ifs s)" and at: "id_at (data (ifs s)) (tellg st3) pid"
                using read_le32_id_at [OF r32] d2 by simp_all
              note hdr = sk r64 r32
              consider (v2) "pid = v2_id" | (v3) "pid \<noteq> v2_id" "pid = v3_id"
                | (v31) "pid \<noteq> v2_id" "pid \<noteq> v3_id" "pid = v3_1_id"
                | (other) "pid \<noteq> v2_id" "pid \<noteq> v3_id" "pid \<noteq> v3_1_id" by blast
              then show ?thesis
              proof cases
                case v3
                with assms hdr at d3 show ?thesis
                  by (auto simp: parse_pair_def walk_inv_def)
              next
                case v31
                with assms hdr at d3 show ?thesis
                  by (auto simp: parse_pair_def walk_inv_def)
              next
                case other
                with assms hdr at d3 show ?thesis
                  by (auto simp: parse_pair_def walk_inv_def)
              next
                case v2
                show ?thesis
                proof (cases "read_le32 st3")
                  case None
                  with hdr v2 assms show ?thesis by (simp add: parse_pair_def)
                next
                  case (Some a4)
                  show ?thesis
                  proof (cases a4)
                    case (Inl e)
                    obtain err ste where e: "e = (err, ste)" by (cases e)
                    with Some Inl hdr v2 assms read_le32_error [of st3 err ste] d3 at show ?thesis
                      by (auto simp: parse_pair_def walk_inv_def decoder_error_def)
                  next
                    case (Inr b4)
                    then obtain len st4 where rl: "read_le32 st3 = Some (Inr (len, st4))"
                      using Some by (cases b4) auto
                    have d4: "data st4 = data (ifs s)" using read_le32_id_at(2) [OF rl] d3 by simp
                    show ?thesis
                    proof (cases "parse_v2_block len st4")
                      case None
                      with hdr v2 rl assms show ?thesis by (simp add: parse_pair_def)
                    next
                      case (Some a5)
                      show ?thesis
                      proof (cases a5)
                        case (Inl e)
                        obtain err ste where e: "e = (err, ste)" by (cases e)
                        with Some Inl have pe: "parse_v2_block len st4 = Some (Inl (err, ste))"
                          by simp
                        from sound_error [OF sound_parse_v2_block pe]
                          sound_edata [OF sound_parse_v2_block pe] pe hdr v2 rl assms d4 at
                        show ?thesis
                          by (auto simp: parse_pair_def walk_inv_def)
                      next
                        case (Inr b5)
                        then obtain b st5 where pb: "parse_v2_block len st4 = Some (Inr (b, st5))"
                          using Some by (cases b5) auto
                        have d5: "data st5 = data (ifs s)"
                          using sound_data [OF sound_parse_v2_block pb] d4 by simp
                        have dec: "decoded_at (data (ifs s)) (gpos st3) b"
                          using decoded_atI [OF rl pb] d3 by simp
                        have at': "id_at (data (ifs s)) (int (gpos st3)) v2_id"
                          using at v2 by (simp add: tellg_def)
                        with hdr v2 rl pb assms d5 at dec show ?thesis
                          by (auto simp: parse_pair_def walk_inv_def)
                      qed
                    qed
                  qed
                qed
              qed
            qed
          qed
        qed
      qed
    qed
  qed
  then show "walk_inv s s'" and "\<And>e. r = Inl e \<Longrightarrow> decoder_error e" by simp_all
qed

lemma parse_pairs_inv_aux:
  assumes "parse_pairs e s i = Some y"
  shows "walk_inv s (snd y) \<and> (\<forall>err. fst y = Inl err \<longrightarrow> decoder_error err)"
  using assms
proof (induction rule: parse_pairs.raw_induct [rotated 1, consumes 1, case_names step])
  case (step walk e s i y)
  show ?case
  proof (cases "i < e")
    case False
    with step(2) show ?thesis by (auto simp: walk_inv_refl)
  next
    case True
    show ?thesis
    proof (cases "parse_pair s i")
      case None
      with step(2) True show ?thesis by simp
    next
      case (Some a)
      obtain r s1 where a: "a = (r, s1)" by (cases a)
      note pp = Some [unfolded a]
      show ?thesis
      proof (cases r)
        case (Inl err)
        with step(2) True pp parse_pair_inv [OF pp] show ?thesis by auto
      next
        case (Inr i')
        with step(2) True pp have "walk e s1 i' = Some y" by simp
        from step(1) [OF this] parse_pair_inv(1) [OF pp] show ?thesis
          by (auto intro: walk_inv_trans)
      qed
    qed
  qed
qed

lemma parse_pairs_inv:
  assumes "parse_pairs e s i = Some (r, s')"
  shows "walk_inv s s'" and "\<And>err. r = Inl err \<Longrightarrow> decoder_error err"
  using parse_pairs_inv_aux [OF assms] by simp_all

section \<open>The scanner and the steps before the walk\<close>

lemma istream_read_data: "istream_read n st = Some (Inr (x, st')) \<Longrightarrow> data st' = data st"
  by (rule sound_data [OF sound_istream_read])

lemma reverse_find_loop_data:
  "reverse_find_loop pat carry cur st = Some (Inr (p, st')) \<Longrightarrow> data st' = data st"
proof (induction pat carry cur st rule: reverse_find_loop.induct)
  case (1 pat carry_buffer current_pos st)
  show ?case
  proof (cases "current_pos > 0")
    case False
    with "1.prems" show ?thesis by (simp add: reverse_find_loop.simps [of pat carry_buffer current_pos st])
  next
    case True
    let ?pos = "max 0 (current_pos - int (window_size pat))"
    from "1.prems" True obtain u st1 w st2
      where sk: "seekg ?pos st = Some (Inr (u, st1))"
        and rd: "istream_read (nat (current_pos - ?pos)) st1 = Some (Inr (w, st2))"
      by (subst (asm) reverse_find_loop.simps)
         (auto simp: Let_def split: option.splits sum.splits)
    have d: "data st2 = data st" using seekg_data [OF sk] istream_read_data [OF rd] by simp
    show ?thesis
    proof (cases "find_in_window (w @ carry_buffer) pat (length (w @ carry_buffer) - length pat)")
      case (Some k)
      with "1.prems" True sk rd d show ?thesis
        by (subst (asm) reverse_find_loop.simps) (auto simp: Let_def)
    next
      case None
      with "1.prems" True sk rd
      have "reverse_find_loop pat (take (length pat - 1) (w @ carry_buffer)) ?pos st2 = Some (Inr (p, st'))"
        by (subst (asm) reverse_find_loop.simps) (auto simp: Let_def)
      from "1.IH" [OF True refl sk refl refl rd refl refl refl None this] d
      show ?thesis by simp
    qed
  qed
qed

lemma reverse_find_bytes_data:
  assumes "reverse_find_bytes st pat start = Some (Inr (p, st'))"
  shows "data st' = data st"
proof -
  from assms obtain u st0 where
    sk: "(if start = - 1 then seekg_end st else seekg start st) = Some (Inr (u, st0))"
    and rest: "(if length pat = 0 then Some (Inr (- 1, st0))
          else reverse_find_loop pat (replicate (length pat - 1) 0) (tellg st0) st0) = Some (Inr (p, st'))"
    by (auto simp: reverse_find_bytes_def bind_res_def split: option.splits sum.splits)
  have "data st0 = data st"
    using sk seekg_data [of start st u st0] by (auto simp: seekg_end_def split: if_splits)
  moreover have "data st' = data st0"
    using rest reverse_find_loop_data [of pat _ _ st0 p st'] by (auto split: if_splits)
  ultimately show ?thesis by simp
qed

lemma reverse_find_loop_error:
  "reverse_find_loop pat carry cur st = Some (Inl (e, st')) \<Longrightarrow>
     e = ios_failure \<and> data st' = data st"
proof (induction pat carry cur st rule: reverse_find_loop.induct)
  case (1 pat carry_buffer current_pos st)
  let ?pos = "max 0 (current_pos - int (window_size pat))"
  from "1.prems" have pos: "current_pos > 0"
    by (subst (asm) reverse_find_loop.simps) (auto split: if_splits)
  show ?case
  proof (cases "seekg ?pos st")
    case None
    then show ?thesis by (simp add: seekg_Some)
  next
    case (Some a)
    show ?thesis
    proof (cases a)
      case (Inl e')
      obtain err ste where e': "e' = (err, ste)" by (cases e')
      with Inl Some "1.prems" pos seekg_error [of ?pos st err ste] show ?thesis
        by (subst (asm) reverse_find_loop.simps) (auto simp: Let_def)
    next
      case (Inr b)
      then obtain u st1 where sk: "seekg ?pos st = Some (Inr (u, st1))" using Some by (cases b) auto
      have d1: "data st1 = data st" using seekg_data [OF sk] .
      show ?thesis
      proof (cases "istream_read (nat (current_pos - ?pos)) st1")
        case None
        then show ?thesis by (simp add: istream_read_def split: if_splits)
      next
        case (Some a2)
        show ?thesis
        proof (cases a2)
          case (Inl e')
          obtain err ste where e': "e' = (err, ste)" by (cases e')
          with Inl Some sk "1.prems" pos d1
            istream_read_error [of "nat (current_pos - ?pos)" st1 err ste]
          show ?thesis
            by (subst (asm) reverse_find_loop.simps) (auto simp: Let_def)
        next
          case (Inr b2)
          then obtain w st2 where rd: "istream_read (nat (current_pos - ?pos)) st1 = Some (Inr (w, st2))"
            using Some by (cases b2) auto
          have d2: "data st2 = data st" using istream_read_data [OF rd] d1 by simp
          show ?thesis
          proof (cases "find_in_window (w @ carry_buffer) pat (length (w @ carry_buffer) - length pat)")
            case (Some k)
            with "1.prems" pos sk rd show ?thesis
              by (subst (asm) reverse_find_loop.simps) (auto simp: Let_def)
          next
            case None
            with "1.prems" pos sk rd
            have "reverse_find_loop pat (take (length pat - 1) (w @ carry_buffer)) ?pos st2 =
                    Some (Inl (e, st'))"
              by (subst (asm) reverse_find_loop.simps) (auto simp: Let_def)
            from "1.IH" [OF pos refl sk refl refl rd refl refl refl None this] d2
            show ?thesis by simp
          qed
        qed
      qed
    qed
  qed
qed

lemma reverse_find_bytes_error:
  assumes "reverse_find_bytes st pat start = Some (Inl (e, st'))"
  shows "e = ios_failure \<and> data st' = data st"
proof (cases "if start = - 1 then seekg_end st else seekg start st")
  case None
  with assms show ?thesis by (simp add: reverse_find_bytes_def bind_res_def)
next
  case (Some a)
  show ?thesis
  proof (cases a)
    case (Inl e')
    obtain err ste where e': "e' = (err, ste)" by (cases e')
    with Inl Some assms seekg_error [of start st err ste] show ?thesis
      by (auto simp: reverse_find_bytes_def bind_res_def seekg_end_def split: if_splits)
  next
    case (Inr b)
    then obtain u st0 where
      sk: "(if start = - 1 then seekg_end st else seekg start st) = Some (Inr (u, st0))"
      using Some by (cases b) auto
    have d0: "data st0 = data st"
      using sk seekg_data [of start st u st0] by (auto simp: seekg_end_def split: if_splits)
    from assms sk have "reverse_find_loop pat (replicate (length pat - 1) 0) (tellg st0) st0 =
                          Some (Inl (e, st'))"
      by (auto simp: reverse_find_bytes_def bind_res_def split: if_splits)
    from reverse_find_loop_error [OF this] d0 show ?thesis by simp
  qed
qed

lemma read_into_array_error:
  "read_into_array n st = Some (Inl (e, st')) \<Longrightarrow> e = ios_failure \<and> data st' = data st"
  unfolding read_into_array_def by (rule istream_read_error)

lemma read_into_array_data: "read_into_array n st = Some (Inr (x, st')) \<Longrightarrow> data st' = data st"
  unfolding read_into_array_def by (rule istream_read_data)

lemma parse_cases:
  assumes "parse s = Some (r, s')"
  shows "(\<exists>e st. r = Inl e \<and> s' = s\<lparr>ifs := st\<rparr> \<and> data st = data (ifs s)) \<or>
         (\<exists>st size_pos i. data st = data (ifs s) \<and>
             parse_pairs size_pos (s\<lparr>ifs := st\<rparr>) i = Some (r, s'))"
proof (cases "reverse_find_bytes (ifs s) eocd_magic (- 1)")
  case None
  with assms show ?thesis by (simp add: parse_def)
next
  case (Some a0)
  note S0 = this
  show ?thesis
  proof (cases a0)
    case (Inl e)
    obtain err ste where e: "e = (err, ste)" by (cases e)
    with S0 Inl assms reverse_find_bytes_error [of "ifs s" eocd_magic "- 1" err ste]
    show ?thesis by (auto simp: parse_def)
  next
    case (Inr b)
    then obtain p st0 where s0: "reverse_find_bytes (ifs s) eocd_magic (- 1) = Some (Inr (p, st0))"
      using S0 by (cases b) auto
    have d0: "data st0 = data (ifs s)" using reverse_find_bytes_data [OF s0] .
    show ?thesis
    proof (cases "p = - 1")
      case True
      with s0 assms d0 show ?thesis by (auto simp: parse_def)
    next
      case False
      note ne = this
      show ?thesis
      proof (cases "seekg (p + 16) st0")
        case None
        then show ?thesis by (simp add: seekg_Some)
      next
        case (Some a1)
        note S1 = this
        show ?thesis
        proof (cases a1)
          case (Inl e)
          obtain err ste where e: "e = (err, ste)" by (cases e)
          with S1 Inl s0 ne assms d0 seekg_error [of "p + 16" st0 err ste]
          show ?thesis by (auto simp: parse_def)
        next
          case (Inr b1)
          then obtain u1 st1 where s1: "seekg (p + 16) st0 = Some (Inr (u1, st1))"
            using S1 by (cases b1) auto
          have d1: "data st1 = data (ifs s)" using seekg_data [OF s1] d0 by simp
          show ?thesis
          proof (cases "read_le32 st1")
            case None
            with s0 ne s1 assms show ?thesis by (simp add: parse_def)
          next
            case (Some a2)
            note S2 = this
            show ?thesis
            proof (cases a2)
              case (Inl e)
              obtain err ste where e: "e = (err, ste)" by (cases e)
              with S2 Inl s0 ne s1 assms d1 read_le32_error [of st1 err ste]
              show ?thesis by (auto simp: parse_def)
            next
              case (Inr b2)
              then obtain cd st2 where s2: "read_le32 st1 = Some (Inr (cd, st2))"
                using S2 by (cases b2) auto
              have d2: "data st2 = data (ifs s)" using read_le32_id_at(2) [OF s2] d1 by simp
              have s3: "seekg (uint cd) st2 = Some (Inr ((), st2\<lparr>gpos := nat (uint cd)\<rparr>))"
                by (simp add: seekg_def)
              define st3 where "st3 = st2\<lparr>gpos := nat (uint cd)\<rparr>"
              have d3: "data st3 = data (ifs s)" using d2 by (simp add: st3_def)
              note s3' = s3 [folded st3_def]
              show ?thesis
              proof (cases "seekg (tellg st3 - 16) st3")
                case None
                then show ?thesis by (simp add: seekg_Some)
              next
                case (Some a4)
                note S4 = this
                show ?thesis
                proof (cases a4)
                  case (Inl e)
                  obtain err ste where e: "e = (err, ste)" by (cases e)
                  with S4 Inl s0 ne s1 s2 s3' assms d3 seekg_error [of "tellg st3 - 16" st3 err ste]
                  show ?thesis by (auto simp: parse_def Let_def)
                next
                  case (Inr b4)
                  then obtain u4 st4 where s4: "seekg (tellg st3 - 16) st3 = Some (Inr (u4, st4))"
                    using S4 by (cases b4) auto
                  have d4: "data st4 = data (ifs s)" using seekg_data [OF s4] d3 by simp
                  show ?thesis
                  proof (cases "read_into_array 16 st4")
                    case None
                    with s0 ne s1 s2 s3' s4 assms show ?thesis by (simp add: parse_def Let_def)
                  next
                    case (Some a5)
                    note S5 = this
                    show ?thesis
                    proof (cases a5)
                      case (Inl e)
                      obtain err ste where e: "e = (err, ste)" by (cases e)
                      with S5 Inl s0 ne s1 s2 s3' s4 assms d4 read_into_array_error [of 16 st4 err ste]
                      show ?thesis by (auto simp: parse_def Let_def)
                    next
                      case (Inr b5)
                      then obtain magic st5 where s5: "read_into_array 16 st4 = Some (Inr (magic, st5))"
                        using S5 by (cases b5) auto
                      have d5: "data st5 = data (ifs s)" using read_into_array_data [OF s5] d4 by simp
                      show ?thesis
                      proof (cases "magic = apk_magic")
                        case False
                        with s0 ne s1 s2 s3' s4 s5 assms d5 show ?thesis
                          by (auto simp: parse_def Let_def)
                      next
                        case True
                        note mg = this
                        show ?thesis
                        proof (cases "seekg (tellg st3 - 16 - 8) st5")
                          case None
                          then show ?thesis by (simp add: seekg_Some)
                        next
                          case (Some a6)
                          note S6 = this
                          show ?thesis
                          proof (cases a6)
                            case (Inl e)
                            obtain err ste where e: "e = (err, ste)" by (cases e)
                            with S6 Inl s0 ne s1 s2 s3' s4 s5 mg assms d5
                              seekg_error [of "tellg st3 - 16 - 8" st5 err ste]
                            show ?thesis by (auto simp: parse_def Let_def)
                          next
                            case (Inr b6)
                            then obtain u6 st6 where
                              s6: "seekg (tellg st3 - 16 - 8) st5 = Some (Inr (u6, st6))"
                              using S6 by (cases b6) auto
                            have d6: "data st6 = data (ifs s)" using seekg_data [OF s6] d5 by simp
                            show ?thesis
                            proof (cases "read_le64 st6")
                              case None
                              with s0 ne s1 s2 s3' s4 s5 mg s6 assms show ?thesis
                                by (simp add: parse_def Let_def)
                            next
                              case (Some a7)
                              note S7 = this
                              show ?thesis
                              proof (cases a7)
                                case (Inl e)
                                obtain err ste where e: "e = (err, ste)" by (cases e)
                                with S7 Inl s0 ne s1 s2 s3' s4 s5 mg s6 assms d6
                                  read_le64_error [of st6 err ste]
                                show ?thesis by (auto simp: parse_def Let_def)
                              next
                                case (Inr b7)
                                then obtain size st7 where s7: "read_le64 st6 = Some (Inr (size, st7))"
                                  using S7 by (cases b7) auto
                                have d7: "data st7 = data (ifs s)" using read_le64_data [OF s7] d6 by simp
                                from s0 ne s1 s2 s3' s4 s5 mg s6 s7 assms
                                have "parse_pairs (tellg st3 - 16 - 8) (s\<lparr>ifs := st7\<rparr>)
                                        (streamoff (tellg st3 - sint size)) = Some (r, s')"
                                  by (simp add: parse_def Let_def)
                                with d7 show ?thesis by blast
                              qed
                            qed
                          qed
                        qed
                      qed
                    qed
                  qed
                qed
              qed
            qed
          qed
        qed
      qed
    qed
  qed
qed

lemma parse_inv:
  assumes "parse s = Some (r, s')"
  shows "walk_inv s s'"
  using parse_cases [OF assms]
proof (elim disjE exE conjE)
  fix e st assume "s' = s\<lparr>ifs := st\<rparr>" "data st = data (ifs s)"
  then show ?thesis by (simp add: walk_inv_ifs)
next
  fix st size_pos i
  assume d: "data st = data (ifs s)" and w: "parse_pairs size_pos (s\<lparr>ifs := st\<rparr>) i = Some (r, s')"
  from walk_inv_trans [OF walk_inv_ifs [OF d] parse_pairs_inv(1) [OF w]] show ?thesis .
qed

lemma parse_error_before_walk:
  assumes "parse s = Some (Inl e, s')" and "e = not_a_zip_file \<or> e = magic_not_found"
  shows "\<exists>st. s' = s\<lparr>ifs := st\<rparr>"
  using parse_cases [OF assms(1)]
proof (elim disjE exE conjE)
  fix e' st assume "s' = s\<lparr>ifs := st\<rparr>"
  then show ?thesis by blast
next
  fix st size_pos i
  assume "parse_pairs size_pos (s\<lparr>ifs := st\<rparr>) i = Some (Inl e, s')"
  from parse_pairs_inv(2) [OF this refl] assms(2) show ?thesis
    by (auto simp: decoder_error_def)
qed

section \<open>A block without signers\<close>

lemma parse_v2_block_zero: "parse_v2_block 0 st = Some (Inr (\<lparr>signers = []\<rparr>, st))"
  by (simp add: parse_v2_block_def parse_len_prefixed_seq_def bind_res_def
      parse_len_prefixed_seq_loop.simps [of 0 _ 0])

lemma sint_16: "sint (8 + 8 :: u64) = 16"
  by simp

lemma at_read:
  assumes "decodes p bs x" and "prefix bs (drop k D)"
  shows "p \<lparr>data = D, gpos = k\<rparr> = Some (Inr (x, \<lparr>data = D, gpos = k + length bs\<rparr>))"
  using decodesD [OF assms(1), of "\<lparr>data = D, gpos = k\<rparr>"] assms(2) by simp

lemma parse_locate:
  fixes s :: siginfo and cd :: u32 and size :: u64
  assumes scan: "reverse_find_bytes (ifs s) eocd_magic (- 1) = Some (Inr (int p, st0))"
    and cdoff: "prefix (le_bytes 4 cd) (drop (p + 16) (data (ifs s)))"
    and c24: "24 \<le> unat cd"
    and blk0: "prefix (le_bytes 8 size @ apk_magic) (drop (unat cd - 24) (data (ifs s)))"
  shows "parse s =
           parse_pairs (int (unat cd - 24))
             (s\<lparr>ifs := \<lparr>data = data (ifs s), gpos = unat cd - 16\<rparr>\<rparr>)
             (streamoff (int (unat cd) - sint size))"
proof -
  define c where "c = unat cd"
  let ?D = "data (ifs s)"
  let ?at = "\<lambda>k. \<lparr>data = ?D, gpos = k\<rparr>"
  have c: "24 \<le> c" using c24 by (simp add: c_def)
  have cu: "uint cd = int c" by (simp add: c_def)
  note blk2 = blk0 [folded c_def]
  have d0: "data st0 = ?D" using reverse_find_bytes_data [OF scan] .
  have st0: "st0\<lparr>gpos := k\<rparr> = ?at k" for k using d0 by (cases st0) simp
  have sk: "seekg (int k) st = Some (Inr ((), st\<lparr>gpos := k\<rparr>))" for k st
    by (simp add: seekg_def)
  have r_cd: "read_le32 (?at (p + 16)) = Some (Inr (cd, ?at (p + 20)))"
    using at_read [OF decodes_read_le32 cdoff] by simp
  have blk3: "prefix apk_magic (drop (c - 16) ?D)"
    using prefix_drop_append [OF blk2] c by simp
  have r_magic: "read_into_array 16 (?at (c - 16)) = Some (Inr (apk_magic, ?at c))"
    using at_read [OF decodes_istream_read [of apk_magic 16] blk3] c
    by (simp add: read_into_array_def apk_magic_def)
  have r_size: "read_le64 (?at (c - 24)) = Some (Inr (size, ?at (c - 16)))"
    using at_read [OF decodes_read_le64 append_prefixD [OF blk2]] c by simp
  have pos16: "int c - 16 = int (c - 16)" and pos24: "int c - 16 - 8 = int (c - 24)"
    using c by simp_all
  have e1: "seekg (int p + 16) st0 = Some (Inr ((), ?at (p + 16)))"
    using sk [of "p + 16" st0] by (simp add: st0)
  have e3: "seekg (uint cd) (?at (p + 20)) = Some (Inr ((), ?at c))"
    using sk [of c "?at (p + 20)"] by (simp add: cu)
  have e4: "tellg (?at c) = int c" by (simp add: tellg_def)
  have e5: "seekg (int c - 16) (?at c) = Some (Inr ((), ?at (c - 16)))"
    using sk [of "c - 16" "?at c"] by (simp add: pos16)
  have e7: "seekg (int (c - 24)) (?at c) = Some (Inr ((), ?at (c - 24)))"
    using sk [of "c - 24" "?at c"] by simp
  have ne: "int p \<noteq> - 1" by simp
  have "parse s = parse_pairs (int (c - 24)) (s\<lparr>ifs := ?at (c - 16)\<rparr>)
                    (streamoff (int c - sint size))"
    unfolding parse_def
    by (simp only: scan option.case sum.case prod.case ne if_False e1 r_cd e3 Let_def e4 e5 r_magic
        not_not refl e7 r_size pos24 not_True_eq_False)
  then show ?thesis by (simp only: c_def)
qed

lemma parse_pairs_stuck:
  assumes "i < e" and "parse_pair s i = Some (Inr i, s)"
  shows "parse_pairs e s i = None"
proof (rule ccontr)
  assume "parse_pairs e s i \<noteq> None"
  then obtain y where y: "parse_pairs e s i = Some y" by auto
  have "\<not> (e' = e \<and> s' = s \<and> i' = i)" if "parse_pairs e' s' i' = Some y'" for e' s' i' y'
    using that
  proof (induction rule: parse_pairs.raw_induct [rotated 1, consumes 1, case_names step])
    case (step walk e' s' i' y')
    show ?case
    proof
      assume eq: "e' = e \<and> s' = s \<and> i' = i"
      with step(2) assms have "walk e s i = Some y'" by simp
      from step(1) [OF this] show False by simp
    qed
  qed
  from this [OF y] show False by simp
qed

lemma unat32_less:
  fixes cd :: u32
  shows "int (unat cd) < 2 ^ 32"
proof -
  have "unat cd < 2 ^ 32" using unsigned_less [of cd, where 'a = nat] by simp
  then have "int (unat cd) < int (2 ^ 32)" by (simp only: of_nat_less_iff)
  then show ?thesis by simp
qed

lemma streamoff_nat_diff:
  assumes "int c < 2 ^ 32"
  shows "streamoff (int (c - k)) = int (c - k)"
proof (rule streamoff_id)
  show "- (2 ^ 63) \<le> int (c - k)" by simp
  have "int (c - k) \<le> int c" by simp
  also have "\<dots> < 2 ^ 32" by fact
  also have "(2 ^ 32 :: int) < 2 ^ 63" by simp
  finally show "int (c - k) < 2 ^ 63" .
qed

lemma parse_zero_signers_state:
  fixes s :: siginfo and cd :: u32
  assumes scan: "reverse_find_bytes (ifs s) eocd_magic (- 1) = Some (Inr (int p, st0))"
    and cdoff: "prefix (le_bytes 4 cd) (drop (p + 16) (data (ifs s)))"
    and c: "40 \<le> unat cd"
    and blk: "prefix (le_bytes 8 (8 :: u64) @ le_bytes 4 v2_id @ le_bytes 4 (0 :: u32) @
                      le_bytes 8 (40 :: u64) @ apk_magic)
                (drop (unat cd - 40) (data (ifs s)))"
  shows "parse s = Some (Inr (),
           s\<lparr>ifs := \<lparr>data = data (ifs s), gpos = unat cd - 24\<rparr>,
             v2_block_pos := int (unat cd) - 28, v2_block_of := \<lparr>signers = []\<rparr>\<rparr>)"
proof -
  define c where "c = unat cd"
  let ?D = "data (ifs s)"
  let ?at = "\<lambda>k. \<lparr>data = ?D, gpos = k\<rparr>"
  have c: "40 \<le> c" using assms(3) by (simp add: c_def)
  have cu: "uint cd = int c" by (simp add: c_def)
  note blk = assms(4) [folded c_def]
  have d0: "data st0 = ?D" using reverse_find_bytes_data [OF scan] .
  have st0: "st0\<lparr>gpos := k\<rparr> = ?at k" for k using d0 by (cases st0) simp
  have sk: "seekg (int k) st = Some (Inr ((), st\<lparr>gpos := k\<rparr>))" for k st
    by (simp add: seekg_def)
  have r_cd: "read_le32 (?at (p + 16)) = Some (Inr (cd, ?at (p + 20)))"
    using at_read [OF decodes_read_le32 cdoff] by simp
  have blk1: "prefix (le_bytes 8 (8 :: u64) @ le_bytes 4 v2_id @ le_bytes 4 (0 :: u32))
                (drop (c - 40) ?D)"
    using blk by (metis append.assoc append_prefixD)
  have blk2: "prefix (le_bytes 8 (40 :: u64) @ apk_magic) (drop (c - 24) ?D)"
    using prefix_drop_append [of "le_bytes 8 (8 :: u64) @ le_bytes 4 v2_id @ le_bytes 4 (0 :: u32)"
        "le_bytes 8 (40 :: u64) @ apk_magic" "c - 40" ?D] blk c by simp
  have blk3: "prefix apk_magic (drop (c - 16) ?D)"
    using prefix_drop_append [OF blk2] c by simp
  have r_magic: "read_into_array 16 (?at (c - 16)) = Some (Inr (apk_magic, ?at c))"
    using at_read [OF decodes_istream_read [of apk_magic 16] blk3] c
    by (simp add: read_into_array_def apk_magic_def)
  have r_size: "read_le64 (?at (c - 24)) = Some (Inr (40, ?at (c - 16)))"
    using at_read [OF decodes_read_le64 append_prefixD [OF blk2]] c by simp
  have pos16: "int c - 16 = int (c - 16)" and pos24: "int c - 16 - 8 = int (c - 24)"
    using c by simp_all
  let ?s7 = "s\<lparr>ifs := ?at (c - 16)\<rparr>"
  have pp: "parse_pair ?s7 (int (c - 40)) =
              Some (Inr (streamoff (int (c - 40) + sint (8 + 8 :: u64))),
                    ?s7\<lparr>ifs := ?at (c - 40 + 16), v2_block_pos := int (c - 40) + 12,
                        v2_block_of := \<lparr>signers = []\<rparr>\<rparr>)"
    using parse_pair_v2_step [of "int (c - 40)" 8 0 ?s7] blk1
    by (simp add: parse_v2_block_zero)
  have c32: "int c < 2 ^ 32"
    unfolding c_def by (rule unat32_less)
  have i': "streamoff (int (c - 40) + sint (8 + 8 :: u64)) = int (c - 24)"
  proof -
    have "int (c - 40) + sint (8 + 8 :: u64) = int (c - 24)"
      using c by (simp only: sint_16)
    moreover have "streamoff (int (c - 24)) = int (c - 24)"
      using c32 by (rule streamoff_nat_diff)
    ultimately show ?thesis by (simp only:)
  qed
  have fin: "?s7\<lparr>ifs := ?at (c - 40 + 16), v2_block_pos := int (c - 40) + 12,
                        v2_block_of := \<lparr>signers = []\<rparr>\<rparr> =
             s\<lparr>ifs := ?at (c - 24), v2_block_pos := int c - 28, v2_block_of := \<lparr>signers = []\<rparr>\<rparr>"
    using c by simp
  have lt: "int (c - 40) < int (c - 24)" using c by simp
  have walk: "parse_pairs (int (c - 24)) ?s7 (int (c - 40)) =
                Some (Inr (), s\<lparr>ifs := ?at (c - 24), v2_block_pos := int c - 28,
                        v2_block_of := \<lparr>signers = []\<rparr>\<rparr>)"
    apply (subst parse_pairs.simps)
    apply (simp only: lt if_True pp option.case prod.case sum.case i' fin)
    apply (subst parse_pairs.simps)
    apply simp
    done
  have e1: "seekg (int p + 16) st0 = Some (Inr ((), ?at (p + 16)))"
    using sk [of "p + 16" st0] by (simp add: st0)
  have e3: "seekg (uint cd) (?at (p + 20)) = Some (Inr ((), ?at c))"
    using sk [of c "?at (p + 20)"] by (simp add: cu)
  have e4: "tellg (?at c) = int c" by (simp add: tellg_def)
  have e5: "seekg (int c - 16) (?at c) = Some (Inr ((), ?at (c - 16)))"
    using sk [of "c - 16" "?at c"] by (simp add: pos16)
  have e7: "seekg (int (c - 24)) (?at c) = Some (Inr ((), ?at (c - 24)))"
    using sk [of "c - 24" "?at c"] by simp
  have e9: "streamoff (int c - sint (40 :: u64)) = int (c - 40)"
  proof -
    have "int c - sint (40 :: u64) = int (c - 40)" using c by simp
    moreover have "streamoff (int (c - 40)) = int (c - 40)"
      using c32 by (rule streamoff_nat_diff)
    ultimately show ?thesis by (simp only:)
  qed
  have ne: "int p \<noteq> - 1" by simp
  have "parse s = Some (Inr (),
           s\<lparr>ifs := ?at (c - 24), v2_block_pos := int c - 28, v2_block_of := \<lparr>signers = []\<rparr>\<rparr>)"
    unfolding parse_def
    by (simp only: scan option.case sum.case prod.case ne if_False e1 r_cd e3 Let_def e4 e5 r_magic
        not_not refl e7 r_size e9 pos24 walk not_True_eq_False)
  then show ?thesis by (simp only: c_def)
qed

section \<open>The running total of the sequence decoder\<close>

lemma read_le32_advance:
  assumes "read_le32 st = Some (Inr (L, st1))"
  shows "st1 = st\<lparr>gpos := gpos st + 4\<rparr>" and "gpos st + 4 \<le> length (data st)"
  using assms
  by (auto simp: read_le32_def read_into_array_def istream_read_def bind_res_def split: if_splits)

lemma read_le32_Some: "read_le32 st \<noteq> None"
  by (simp add: read_le32_def read_into_array_def istream_read_def bind_res_def)

lemma total32_simps [simp]:
  "total32 [] = 0" "total32 (L # Ls) = (4 + L) + total32 Ls"
  by (simp_all add: total32_def)

lemma total_bytes_simps [simp]:
  "total_bytes [] = 0" "total_bytes (L # Ls) = (4 + unat L) + total_bytes Ls"
  by (simp_all add: total_bytes_def)

lemma seq_loop_frames_aux:
  assumes "parse_len_prefixed_seq_loop N f p out st = Some r"
  shows "exact f \<longrightarrow> p \<le> N \<longrightarrow>
         (\<forall>out' st'. r = Inr (out', st') \<longrightarrow>
            (\<exists>Ls xs. out' = out @ xs \<and> length xs = length Ls \<and> frames st Ls \<and>
               st' = st\<lparr>gpos := gpos st + total_bytes Ls\<rparr> \<and>
               p + total32 Ls = N \<and>
               (\<forall>k<length Ls. p + total32 (take k Ls) < N)))"
  using assms
proof (induction rule: parse_len_prefixed_seq_loop.raw_induct [rotated 1, consumes 1, case_names step])
  case (step loop N f p out st r)
  show ?case
  proof (intro impI allI)
    fix out' st'
    assume ex: "exact f" and le: "p \<le> N" and r: "r = Inr (out', st')"
    show "\<exists>Ls xs. out' = out @ xs \<and> length xs = length Ls \<and> frames st Ls \<and>
               st' = st\<lparr>gpos := gpos st + total_bytes Ls\<rparr> \<and>
               p + total32 Ls = N \<and> (\<forall>k<length Ls. p + total32 (take k Ls) < N)"
    proof (cases "p < N")
      case False
      with le have "p = N" by simp
      moreover from step(2) False r have "out' = out" "st' = st" by simp_all
      ultimately show ?thesis
        by (intro exI [of _ "[]"]) simp
    next
      case True
      from step(2) True r obtain L st1 x st2 where
        rd: "read_le32 st = Some (Inr (L, st1))" and fx: "f L st1 = Some (Inr (x, st2))"
        and nle: "\<not> N < p + (4 + L)"
        and rec: "loop N f (p + (4 + L)) (out @ [x]) st2 = Some r"
        by (auto simp: Let_def split: option.splits sum.splits prod.splits if_splits)
      from ex fx have st2: "st2 = st1\<lparr>gpos := gpos st1 + unat L\<rparr>"
        unfolding exact_def by (metis option.inject)
      from nle have le': "p + (4 + L) \<le> N" by simp
      from step(1) [OF rec] ex le' r obtain Ls xs where
        IH: "out' = (out @ [x]) @ xs" "length xs = length Ls" "frames st2 Ls"
          "st' = st2\<lparr>gpos := gpos st2 + total_bytes Ls\<rparr>"
          "p + (4 + L) + total32 Ls = N"
          "\<forall>k<length Ls. p + (4 + L) + total32 (take k Ls) < N"
        by blast
      have g1: "st1 = st\<lparr>gpos := gpos st + 4\<rparr>" using read_le32_advance(1) [OF rd] .
      show ?thesis
      proof (intro exI [of _ "L # Ls"] exI [of _ "x # xs"] conjI)
        show "out' = out @ x # xs" using IH(1) by simp
        show "length (x # xs) = length (L # Ls)" using IH(2) by simp
        show "frames st (L # Ls)" using rd IH(3) st2 by simp
        show "st' = st\<lparr>gpos := gpos st + total_bytes (L # Ls)\<rparr>"
          using IH(4) st2 g1 by (simp add: add.assoc)
        show "p + total32 (L # Ls) = N" using IH(5) by (simp add: add.assoc)
        show "\<forall>k<length (L # Ls). p + total32 (take k (L # Ls)) < N"
        proof (intro allI impI)
          fix k assume "k < length (L # Ls)"
          then show "p + total32 (take k (L # Ls)) < N"
            using True IH(6) by (cases k) (auto simp: add.assoc)
        qed
      qed
    qed
  qed
qed

lemma seq_loop_returns:
  assumes ex: "exact f"
  shows "\<exists>r. parse_len_prefixed_seq_loop N f p out st = Some r"
proof (induction "length (data st) - gpos st" arbitrary: p out st rule: less_induct)
  case less
  show ?case
  proof (cases "p < N")
    case False
    then show ?thesis by (subst parse_len_prefixed_seq_loop.simps) simp
  next
    case True
    show ?thesis
    proof (cases "read_le32 st")
      case None
      then show ?thesis by (simp add: read_le32_Some)
    next
      case (Some a)
      show ?thesis
      proof (cases a)
        case (Inl e)
        with Some True show ?thesis by (subst parse_len_prefixed_seq_loop.simps) simp
      next
        case (Inr b)
        then obtain L st1 where rd: "read_le32 st = Some (Inr (L, st1))" using Some by (cases b) auto
        note adv = read_le32_advance [OF rd]
        from ex obtain r where fr: "f L st1 = Some r"
          and fe: "\<And>x st'. r = Inr (x, st') \<Longrightarrow> st' = st1\<lparr>gpos := gpos st1 + unat L\<rparr>"
          unfolding exact_def by blast
        show ?thesis
        proof (cases r)
          case (Inl e)
          with rd fr True show ?thesis by (subst parse_len_prefixed_seq_loop.simps) simp
        next
          case (Inr c)
          then obtain x st2 where c: "r = Inr (x, st2)" by (cases c) auto
          have st2: "st2 = st\<lparr>gpos := gpos st + 4 + unat L\<rparr>"
            using fe [OF c] adv(1) by simp
          show ?thesis
          proof (cases "N < p + (4 + L)")
            case True
            with rd fr c \<open>p < N\<close> show ?thesis
              by (subst parse_len_prefixed_seq_loop.simps) (simp add: Let_def)
          next
            case False
            have "length (data st2) - gpos st2 < length (data st) - gpos st"
              using st2 adv(2) by simp
            from less [OF this] obtain r' where
              "parse_len_prefixed_seq_loop N f (p + (4 + L)) (out @ [x]) st2 = Some r'" by blast
            with rd fr c \<open>p < N\<close> False show ?thesis
              by (subst parse_len_prefixed_seq_loop.simps) (simp add: Let_def)
          qed
        qed
      qed
    qed
  qed
qed

lemma seq_loop_accepts:
  assumes "accepts f st Ls" and "p + total32 Ls = N"
    and "\<forall>k<length Ls. p + total32 (take k Ls) < N"
  shows "\<exists>xs st'. parse_len_prefixed_seq_loop N f p out st = Some (Inr (out @ xs, st')) \<and>
                   length xs = length Ls"
  using assms
proof (induction Ls arbitrary: st p out)
  case Nil
  then show ?case
    by (subst parse_len_prefixed_seq_loop.simps) simp
next
  case (Cons L Ls)
  from Cons.prems(1) obtain st1 where
    rd: "read_le32 st = Some (Inr (L, st1))"
    and rest: "case f L st1 of Some (Inr (x, st2)) \<Rightarrow> accepts f st2 Ls | _ \<Rightarrow> False"
    by (cases "read_le32 st") (auto split: sum.splits prod.splits)
  from rest obtain x st2 where fx: "f L st1 = Some (Inr (x, st2))"
    and acc: "accepts f st2 Ls"
    by (cases "f L st1") (auto split: sum.splits prod.splits)
  from Cons.prems(3) have lt: "p < N" by (auto dest: spec [of _ 0])
  have tot: "p + (4 + L) + total32 Ls = N" using Cons.prems(2) by (simp add: add.assoc)
  have pre: "\<forall>k<length Ls. p + (4 + L) + total32 (take k Ls) < N"
  proof (intro allI impI)
    fix k assume "k < length Ls"
    then have "Suc k < length (L # Ls)" by simp
    with Cons.prems(3) have "p + total32 (take (Suc k) (L # Ls)) < N" by blast
    then show "p + (4 + L) + total32 (take k Ls) < N" by (simp add: add.assoc)
  qed
  have nle: "\<not> N < p + (4 + L)"
  proof (cases Ls)
    case Nil
    with tot show ?thesis by simp
  next
    case (Cons a list)
    with pre have "p + (4 + L) + total32 (take 0 Ls) < N" by (auto dest: spec [of _ 0])
    then show ?thesis by simp
  qed
  from Cons.IH [OF acc tot pre, of "out @ [x]"] obtain xs st' where
    IH: "parse_len_prefixed_seq_loop N f (p + (4 + L)) (out @ [x]) st2 = Some (Inr ((out @ [x]) @ xs, st'))"
      "length xs = length Ls" by blast
  show ?case
    apply (subst parse_len_prefixed_seq_loop.simps)
    using lt rd fx nle IH
    by (intro exI [of _ "x # xs"] exI [of _ st']) (simp add: Let_def)
qed

lemma frames_prefix:
  "frames st A \<Longrightarrow> frames st B \<Longrightarrow> prefix A B \<or> prefix B A"
proof (induction A arbitrary: st B)
  case Nil
  then show ?case by simp
next
  case (Cons a A)
  show ?case
  proof (cases B)
    case Nil
    then show ?thesis by simp
  next
    case (Cons b B')
    with Cons.prems obtain st1 where "read_le32 st = Some (Inr (a, st1))" "a = b"
      "frames (st1\<lparr>gpos := gpos st1 + unat a\<rparr>) A" "frames (st1\<lparr>gpos := gpos st1 + unat a\<rparr>) B'"
      by (auto split: option.splits sum.splits prod.splits)
    with Cons.IH [of _ B'] Cons show ?thesis by auto
  qed
qed

lemma total_bytes_word:
  "total_bytes Ls < 2 ^ 32 \<Longrightarrow> unat (total32 Ls) = total_bytes Ls"
proof -
  have "total32 Ls = word_of_nat (total_bytes Ls)"
    by (induction Ls) simp_all
  then show "total_bytes Ls < 2 ^ 32 \<Longrightarrow> unat (total32 Ls) = total_bytes Ls"
    by (simp add: of_nat_unat32)
qed

section \<open>Scanning a window\<close>

lemma find_in_window_None:
  "(\<And>k. k < n \<Longrightarrow> take (length pat) (drop k buf) \<noteq> pat) \<Longrightarrow> find_in_window buf pat n = None"
  by (induction n) auto

lemma take_drop_neq_hd:
  assumes "k < length buf" "buf ! k \<noteq> hd pat" "pat \<noteq> []"
  shows "take (length pat) (drop k buf) \<noteq> pat"
proof
  assume e: "take (length pat) (drop k buf) = pat"
  have "hd (take (length pat) (drop k buf)) = buf ! k"
    using assms by (simp add: hd_drop_conv_nth)
  with e assms show False by simp
qed

lemma reverse_find_loop_step:
  assumes "0 < cur" and "pos = max 0 (cur - int (window_size pat))"
    and "seekg pos st = Some (Inr ((), st1))"
    and "istream_read (nat (cur - pos)) st1 = Some (Inr (w, st2))"
    and "find_in_window (w @ carry) pat (length (w @ carry) - length pat) = None"
  shows "reverse_find_loop pat carry cur st =
           reverse_find_loop pat (take (length pat - 1) (w @ carry)) pos st2"
  using assms by (subst reverse_find_loop.simps) (simp add: Let_def)

lemma straddle_scan:
  "reverse_find_bytes \<lparr>data = straddle_file, gpos = 0\<rparr> eocd_magic (- 1) =
     Some (Inr (- 1, \<lparr>data = straddle_file, gpos = 4096\<rparr>))"
proof -
  let ?w1 = "[0x4B, 0x05, 0x06] @ replicate 4093 (0 :: byte)"
  let ?w0 = "replicate 4095 (0 :: byte) @ [0x50]"
  have len: "length straddle_file = 8192" by (simp add: straddle_file_def eocd_magic_def)
  have ws: "window_size eocd_magic = 4096"
    by (simp add: window_size_def default_window_size_def eocd_magic_def)
  have rd1: "istream_read 4096 \<lparr>data = straddle_file, gpos = 4096\<rparr> =
               Some (Inr (?w1, \<lparr>data = straddle_file, gpos = 8192\<rparr>))"
    by (simp add: istream_read_def len) (simp add: straddle_file_def eocd_magic_def)
  have rd0: "istream_read 4096 \<lparr>data = straddle_file, gpos = 0\<rparr> =
               Some (Inr (?w0, \<lparr>data = straddle_file, gpos = 4096\<rparr>))"
    by (simp add: istream_read_def len) (simp add: straddle_file_def eocd_magic_def)
  have f1: "find_in_window (?w1 @ [0, 0, 0]) eocd_magic 4095 = None"
  proof (rule find_in_window_None)
    fix k :: nat assume "k < 4095"
    then have "(?w1 @ [0, 0, 0]) ! k \<noteq> hd eocd_magic"
      by (cases "k < 3") (auto simp: nth_append nth_Cons' eocd_magic_def)
    then show "take (length eocd_magic) (drop k (?w1 @ [0, 0, 0])) \<noteq> eocd_magic"
      using \<open>k < 4095\<close> by (intro take_drop_neq_hd) (auto simp: eocd_magic_def)
  qed
  have f0: "find_in_window (?w0 @ [0x4B, 0x05, 0x06]) eocd_magic 4095 = None"
  proof (rule find_in_window_None)
    fix k :: nat assume "k < 4095"
    then have "(?w0 @ [0x4B, 0x05, 0x06]) ! k \<noteq> hd eocd_magic"
      by (auto simp: nth_append eocd_magic_def)
    then show "take (length eocd_magic) (drop k (?w0 @ [0x4B, 0x05, 0x06])) \<noteq> eocd_magic"
      using \<open>k < 4095\<close> by (intro take_drop_neq_hd) (auto simp: eocd_magic_def)
  qed
  have le: "length eocd_magic = 4" by (simp add: eocd_magic_def)
  have s1: "reverse_find_loop eocd_magic [0, 0, 0] 8192 \<lparr>data = straddle_file, gpos = 8192\<rparr> =
            reverse_find_loop eocd_magic (take (length eocd_magic - 1) (?w1 @ [0, 0, 0])) 4096
              \<lparr>data = straddle_file, gpos = 8192\<rparr>"
    by (rule reverse_find_loop_step [where ?st1.0 = "\<lparr>data = straddle_file, gpos = 4096\<rparr>"])
       (use f1 in \<open>simp_all add: ws seekg_def rd1 le\<close>)
  have s0: "reverse_find_loop eocd_magic [0x4B, 0x05, 0x06] 4096 \<lparr>data = straddle_file, gpos = 8192\<rparr> =
            reverse_find_loop eocd_magic (take (length eocd_magic - 1) (?w0 @ [0x4B, 0x05, 0x06])) 0
              \<lparr>data = straddle_file, gpos = 4096\<rparr>"
    by (rule reverse_find_loop_step [where ?st1.0 = "\<lparr>data = straddle_file, gpos = 0\<rparr>"])
       (use f0 in \<open>simp_all add: ws seekg_def rd0 le\<close>)
  have c1: "take (length eocd_magic - 1) (?w1 @ [0, 0, 0]) = [0x4B, 0x05, 0x06]"
    by (simp add: le)
  have "reverse_find_bytes \<lparr>data = straddle_file, gpos = 0\<rparr> eocd_magic (- 1) =
          reverse_find_loop eocd_magic [0, 0, 0] 8192 \<lparr>data = straddle_file, gpos = 8192\<rparr>"
    by (simp add: reverse_find_bytes_def bind_res_def seekg_end_def tellg_def len le
          numeral_3_eq_3)
  also have "\<dots> = reverse_find_loop eocd_magic [0x4B, 0x05, 0x06] 4096 \<lparr>data = straddle_file, gpos = 8192\<rparr>"
    unfolding s1 c1 ..
  also have "\<dots> = Some (Inr (- 1, \<lparr>data = straddle_file, gpos = 4096\<rparr>))"
    unfolding s0 by (subst reverse_find_loop.simps) simp
  finally show ?thesis .
qed

lemma find_in_window_Some:
  assumes "j < n" and "take (length pat) (drop j buf) = pat"
    and "\<And>k. j < k \<Longrightarrow> k < n \<Longrightarrow> take (length pat) (drop k buf) \<noteq> pat"
  shows "find_in_window buf pat n = Some j"
  using assms
proof (induction n)
  case 0
  then show ?case by simp
next
  case (Suc n)
  show ?case
  proof (cases "j = n")
    case True
    with Suc.prems(2) show ?thesis by simp
  next
    case False
    with Suc.prems(1) have jn: "j < n" by simp
    have "take (length pat) (drop n buf) \<noteq> pat" using Suc.prems(3) [of n] jn by simp
    moreover have "find_in_window buf pat n = Some j"
      using Suc.IH [OF jn Suc.prems(2)] Suc.prems(3) by simp
    ultimately show ?thesis by simp
  qed
qed

section \<open>A comment that puts the EOCD magic on a window boundary\<close>

lemma signing_block_zero_signers:
  "signing_block (id_value_pair v2_id (le_bytes 4 (0 :: u32))) =
     [40, 0, 0, 0, 0, 0, 0, 0, 8, 0, 0, 0, 0, 0, 0, 0, 26, 135, 9, 113, 0, 0, 0, 0,
      40, 0, 0, 0, 0, 0, 0, 0, 65, 80, 75, 32, 83, 105, 103, 32, 66, 108, 111, 99, 107, 32, 52, 50]"
  by code_simp

lemma long_comment_apk_bytes:
  "commented_apk 4075 =
     ([40, 0, 0, 0, 0, 0, 0, 0, 8, 0, 0, 0, 0, 0, 0, 0, 26, 135, 9, 113, 0, 0, 0, 0,
       40, 0, 0, 0, 0, 0, 0, 0, 65, 80, 75, 32, 83, 105, 103, 32, 66, 108, 111, 99, 107, 32, 52, 50]
      @ [0x50]) @
     ([0x4B, 0x05, 0x06] @ replicate 12 0 @ [48, 0, 0, 0, 235, 15] @ replicate 4075 0)"
proof -
  note sb = signing_block_zero_signers
  have l4: "le_bytes 4 (48 :: u32) = [48, 0, 0, 0]" by code_simp
  have l2: "le_bytes 2 (4075 :: 16 word) = [235, 15]" by code_simp
  show ?thesis
    unfolding commented_apk_def eocd_record_commented_def sb
    by (simp add: l4 l2 eocd_magic_def)
qed

lemma long_comment_scan:
  "reverse_find_bytes \<lparr>data = commented_apk 4075, gpos = 0\<rparr> eocd_magic (- 1) =
     Some (Inr (- 1, \<lparr>data = commented_apk 4075, gpos = 49\<rparr>))"
proof -
  let ?w0 = "[40, 0, 0, 0, 0, 0, 0, 0, 8, 0, 0, 0, 0, 0, 0, 0, 26, 135, 9, 113, 0, 0, 0, 0,
       40, 0, 0, 0, 0, 0, 0, 0, 65, 80, 75, 32, 83, 105, 103, 32, 66, 108, 111, 99, 107, 32, 52, 50]
      @ [0x50 :: byte]"
  let ?w1 = "[0x4B, 0x05, 0x06] @ replicate 12 0 @ [48, 0, 0, 0, 235, 15] @ replicate 4075 (0 :: byte)"
  note bytes = long_comment_apk_bytes
  have len: "length (commented_apk 4075) = 4145" unfolding bytes by simp
  have ws: "window_size eocd_magic = 4096"
    by (simp add: window_size_def default_window_size_def eocd_magic_def)
  have le: "length eocd_magic = 4" by (simp add: eocd_magic_def)
  have rd1: "istream_read 4096 \<lparr>data = commented_apk 4075, gpos = 49\<rparr> =
               Some (Inr (?w1, \<lparr>data = commented_apk 4075, gpos = 4145\<rparr>))"
    by (simp add: istream_read_def len) (simp add: bytes)
  have rd0: "istream_read 49 \<lparr>data = commented_apk 4075, gpos = 0\<rparr> =
               Some (Inr (?w0, \<lparr>data = commented_apk 4075, gpos = 49\<rparr>))"
    by (simp add: istream_read_def len) (simp add: bytes)
  have f1: "find_in_window (?w1 @ [0, 0, 0]) eocd_magic 4095 = None"
  proof (rule find_in_window_None)
    fix k :: nat assume k: "k < 4095"
    have "hd eocd_magic \<notin> set (?w1 @ [0, 0, 0])" by (simp add: eocd_magic_def)
    moreover have "(?w1 @ [0, 0, 0]) ! k \<in> set (?w1 @ [0, 0, 0])"
      using k by (intro nth_mem) simp
    ultimately have "(?w1 @ [0, 0, 0]) ! k \<noteq> hd eocd_magic" by metis
    then show "take (length eocd_magic) (drop k (?w1 @ [0, 0, 0])) \<noteq> eocd_magic"
      using k by (intro take_drop_neq_hd) (auto simp: eocd_magic_def)
  qed
  have f0: "find_in_window (?w0 @ [0x4B, 0x05, 0x06]) eocd_magic
              (length (?w0 @ [0x4B, 0x05, 0x06]) - length eocd_magic) = None"
    by code_simp
  have s1: "reverse_find_loop eocd_magic [0, 0, 0] 4145 \<lparr>data = commented_apk 4075, gpos = 4145\<rparr> =
            reverse_find_loop eocd_magic (take (length eocd_magic - 1) (?w1 @ [0, 0, 0])) 49
              \<lparr>data = commented_apk 4075, gpos = 4145\<rparr>"
    by (rule reverse_find_loop_step [where ?st1.0 = "\<lparr>data = commented_apk 4075, gpos = 49\<rparr>"])
       (use f1 in \<open>simp_all add: ws seekg_def rd1 le\<close>)
  have s0: "reverse_find_loop eocd_magic [0x4B, 0x05, 0x06] 49 \<lparr>data = commented_apk 4075, gpos = 4145\<rparr> =
            reverse_find_loop eocd_magic (take (length eocd_magic - 1) (?w0 @ [0x4B, 0x05, 0x06])) 0
              \<lparr>data = commented_apk 4075, gpos = 49\<rparr>"
  proof (rule reverse_find_loop_step [where ?st1.0 = "\<lparr>data = commented_apk 4075, gpos = 0\<rparr>"])
    show "(0 :: int) < 49" by simp
    show "(0 :: int) = max 0 (49 - int (window_size eocd_magic))" by (simp add: ws)
    show "seekg 0 \<lparr>data = commented_apk 4075, gpos = 4145\<rparr> =
            Some (Inr ((), \<lparr>data = commented_apk 4075, gpos = 0\<rparr>))"
      by (simp add: seekg_def)
    show "istream_read (nat (49 - 0)) \<lparr>data = commented_apk 4075, gpos = 0\<rparr> =
            Some (Inr (?w0, \<lparr>data = commented_apk 4075, gpos = 49\<rparr>))"
      using rd0 by simp
    show "find_in_window (?w0 @ [0x4B, 0x05, 0x06]) eocd_magic
            (length (?w0 @ [0x4B, 0x05, 0x06]) - length eocd_magic) = None"
      by (rule f0)
  qed
  have c1: "take (length eocd_magic - 1) (?w1 @ [0, 0, 0]) = [0x4B, 0x05, 0x06]"
    by (simp add: le)
  have "reverse_find_bytes \<lparr>data = commented_apk 4075, gpos = 0\<rparr> eocd_magic (- 1) =
          reverse_find_loop eocd_magic [0, 0, 0] 4145 \<lparr>data = commented_apk 4075, gpos = 4145\<rparr>"
    by (simp add: reverse_find_bytes_def bind_res_def seekg_end_def tellg_def len le
          numeral_3_eq_3)
  also have "\<dots> = reverse_find_loop eocd_magic [0x4B, 0x05, 0x06] 49 \<lparr>data = commented_apk 4075, gpos = 4145\<rparr>"
    unfolding s1 c1 ..
  also have "\<dots> = Some (Inr (- 1, \<lparr>data = commented_apk 4075, gpos = 49\<rparr>))"
    unfolding s0 by (subst reverse_find_loop.simps) simp
  finally show ?thesis .
qed

lemma parse_long_comment_apk:
  "parse (siginfo_new (commented_apk 4075)) =
     Some (Inl not_a_zip_file,
           (siginfo_new (commented_apk 4075))\<lparr>ifs := \<lparr>data = commented_apk 4075, gpos = 49\<rparr>\<rparr>)"
  using long_comment_scan by (simp add: parse_def siginfo_new_def)

lemma short_comment_apk_bytes:
  "commented_apk 4074 =
     [40, 0, 0, 0, 0, 0, 0, 0, 8, 0, 0, 0, 0, 0, 0, 0, 26, 135, 9, 113, 0, 0, 0, 0,
      40, 0, 0, 0, 0, 0, 0, 0, 65, 80, 75, 32, 83, 105, 103, 32, 66, 108, 111, 99, 107, 32, 52, 50] @
     ([0x50, 0x4B, 0x05, 0x06] @ replicate 12 0 @ [48, 0, 0, 0, 234, 15] @ replicate 4074 0)"
proof -
  have l4: "le_bytes 4 (48 :: u32) = [48, 0, 0, 0]" by code_simp
  have l2: "le_bytes 2 (4074 :: 16 word) = [234, 15]" by code_simp
  show ?thesis
    unfolding commented_apk_def eocd_record_commented_def signing_block_zero_signers
    by (simp add: l4 l2 eocd_magic_def)
qed

lemma short_comment_scan:
  "reverse_find_bytes \<lparr>data = commented_apk 4074, gpos = 0\<rparr> eocd_magic (- 1) =
     Some (Inr (int 48, \<lparr>data = commented_apk 4074, gpos = 4144\<rparr>))"
proof -
  let ?w1 = "[0x50, 0x4B, 0x05, 0x06] @ replicate 12 0 @ [48, 0, 0, 0, 234, 15] @ replicate 4074 (0 :: byte)"
  note bytes = short_comment_apk_bytes
  have len: "length (commented_apk 4074) = 4144" unfolding bytes by simp
  have ws: "window_size eocd_magic = 4096"
    by (simp add: window_size_def default_window_size_def eocd_magic_def)
  have le: "length eocd_magic = 4" by (simp add: eocd_magic_def)
  have rd1: "istream_read 4096 \<lparr>data = commented_apk 4074, gpos = 48\<rparr> =
               Some (Inr (?w1, \<lparr>data = commented_apk 4074, gpos = 4144\<rparr>))"
    by (simp add: istream_read_def len) (simp add: bytes)
  have f1: "find_in_window (?w1 @ [0, 0, 0]) eocd_magic 4095 = Some 0"
  proof (rule find_in_window_Some)
    show "(0 :: nat) < 4095" by simp
    show "take (length eocd_magic) (drop 0 (?w1 @ [0, 0, 0])) = eocd_magic"
      by (simp add: eocd_magic_def)
    fix k :: nat assume k: "0 < k" "k < 4095"
    then obtain k' where k': "k = Suc k'" by (cases k) auto
    let ?t = "[0x4B, 0x05, 0x06] @ replicate 12 0 @ [48, 0, 0, 0, 234, 15] @ replicate 4074 (0 :: byte) @ [0, 0, 0]"
    have "hd eocd_magic \<notin> set ?t" by (simp add: eocd_magic_def)
    moreover have "?t ! k' \<in> set ?t" using k k' by (intro nth_mem) simp
    ultimately have "?t ! k' \<noteq> hd eocd_magic" by metis
    then have "(?w1 @ [0, 0, 0]) ! k \<noteq> hd eocd_magic" by (simp add: k')
    then show "take (length eocd_magic) (drop k (?w1 @ [0, 0, 0])) \<noteq> eocd_magic"
      using k by (intro take_drop_neq_hd) (auto simp: eocd_magic_def)
  qed
  have "reverse_find_bytes \<lparr>data = commented_apk 4074, gpos = 0\<rparr> eocd_magic (- 1) =
          reverse_find_loop eocd_magic [0, 0, 0] 4144 \<lparr>data = commented_apk 4074, gpos = 4144\<rparr>"
    by (simp add: reverse_find_bytes_def bind_res_def seekg_end_def tellg_def len le
          numeral_3_eq_3)
  also have "\<dots> = Some (Inr (int 48, \<lparr>data = commented_apk 4074, gpos = 4144\<rparr>))"
    apply (subst reverse_find_loop.simps)
    using f1 apply (simp add: ws seekg_def rd1 le Let_def)
    done
  finally show ?thesis .
qed

lemma parse_short_comment_apk:
  "parse (siginfo_new (commented_apk 4074)) =
     Some (Inr (), (siginfo_new (commented_apk 4074))
             \<lparr>ifs := \<lparr>data = commented_apk 4074, gpos = 24\<rparr>, v2_block_pos := 20,
               v2_block_of := \<lparr>signers = []\<rparr>\<rparr>)"
proof -
  let ?s = "siginfo_new (commented_apk 4074)"
  note bytes = short_comment_apk_bytes
  have h1: "reverse_find_bytes (ifs ?s) eocd_magic (- 1) =
              Some (Inr (int 48, \<lparr>data = commented_apk 4074, gpos = 4144\<rparr>))"
    using short_comment_scan by (simp add: siginfo_new_def)
  have l4: "le_bytes 4 (48 :: u32) = [48, 0, 0, 0]" by code_simp
  have h2: "prefix (le_bytes 4 (48 :: u32)) (drop (48 + 16) (data (ifs ?s)))"
    by (simp add: siginfo_new_def bytes l4)
  have h3: "40 \<le> unat (48 :: u32)" by simp
  have blk: "le_bytes 8 (8 :: u64) @ le_bytes 4 v2_id @ le_bytes 4 (0 :: u32) @
                      le_bytes 8 (40 :: u64) @ apk_magic =
     [8, 0, 0, 0, 0, 0, 0, 0, 26, 135, 9, 113, 0, 0, 0, 0,
      40, 0, 0, 0, 0, 0, 0, 0, 65, 80, 75, 32, 83, 105, 103, 32, 66, 108, 111, 99, 107, 32, 52, 50]"
    by code_simp
  have h4: "prefix (le_bytes 8 (8 :: u64) @ le_bytes 4 v2_id @ le_bytes 4 (0 :: u32) @
                      le_bytes 8 (40 :: u64) @ apk_magic)
              (drop (unat (48 :: u32) - 40) (data (ifs ?s)))"
    unfolding blk by (simp add: siginfo_new_def bytes)
  from parse_zero_signers_state [OF h1 h2 h3 h4] show ?thesis
    by (simp add: siginfo_new_def)
qed

section \<open>Evaluations shared by the statements below\<close>

lemma exact_parse_certificate: "exact parse_certificate"
  by (simp add: exact_def parse_certificate_def read_into_vector_def istream_read_def)

lemma parse_failing_apk:
  "parse (siginfo_new failing_apk) = Some (Inl incomplete_sequence, failed_state)"
  by code_simp

lemma parse_empty_file:
  "parse (siginfo_new []) = Some (Inl not_a_zip_file, siginfo_new [])"
  by code_simp

section \<open>The sequence decoder in terms of its 32-bit total\<close>

text \<open>
  What the loop of \<^verbatim>\<open>parse_len_prefixed_seq\<close> does for every budget \<open>N\<close> and every \<open>f\<close> that
  consumes exactly its declared length, stated with the total as the code keeps it.  It
  always returns.  When it returns a result, the stream holds one record per element of
  the result, the get position has moved by the bytes of these records, and their total
  equals \<open>N\<close> and was below \<open>N\<close> before each of them; when the records take fewer than
  \<open>2 ^ 32\<close> bytes, they take exactly \<open>N\<close>.  When the records bring the total above \<open>N\<close>,
  the decoder throws; when \<open>f\<close> returns normally on each record and the total reaches \<open>N\<close>,
  it returns one element per record.
\<close>

lemma parse_len_prefixed_seq_budget:
  fixes f :: "u32 \<Rightarrow> istream \<Rightarrow> 'a res"
  assumes "exact f"
  shows "(\<exists>r. parse_len_prefixed_seq N st f = Some r) \<and>
         (\<forall>out st'. parse_len_prefixed_seq N st f = Some (Inr (out, st')) \<longrightarrow>
            (\<exists>Ls. length Ls = length out \<and> frames st Ls \<and>
                  st' = st\<lparr>gpos := gpos st + total_bytes Ls\<rparr> \<and>
                  total32 Ls = N \<and>
                  (\<forall>k<length Ls. total32 (take k Ls) < N) \<and>
                  (total_bytes Ls < 2 ^ 32 \<longrightarrow> total_bytes Ls = unat N))) \<and>
         (\<forall>Ls. frames st Ls \<and> N < total32 Ls \<and> (\<forall>k<length Ls. total32 (take k Ls) < N) \<longrightarrow>
            (\<exists>e. parse_len_prefixed_seq N st f = Some (Inl e))) \<and>
         (\<forall>Ls. accepts f st Ls \<and> total32 Ls = N \<and> (\<forall>k<length Ls. total32 (take k Ls) < N) \<longrightarrow>
            (\<exists>out st'. parse_len_prefixed_seq N st f = Some (Inr (out, st')) \<and>
                       length out = length Ls))"
proof -
  have ret: "\<exists>r. parse_len_prefixed_seq N st f = Some r"
    unfolding parse_len_prefixed_seq_def by (rule seq_loop_returns [OF assms])
  have succ: "\<exists>Ls. length Ls = length out \<and> frames st Ls \<and>
                  st' = st\<lparr>gpos := gpos st + total_bytes Ls\<rparr> \<and>
                  total32 Ls = N \<and>
                  (\<forall>k<length Ls. total32 (take k Ls) < N) \<and>
                  (total_bytes Ls < 2 ^ 32 \<longrightarrow> total_bytes Ls = unat N)"
    if "parse_len_prefixed_seq N st f = Some (Inr (out, st'))" for out st'
  proof -
    from that have "parse_len_prefixed_seq_loop N f 0 [] st = Some (Inr (out, st'))"
      by (simp add: parse_len_prefixed_seq_def)
    from seq_loop_frames_aux [OF this] assms obtain Ls xs where
      L: "out = [] @ xs" "length xs = length Ls" "frames st Ls"
        "st' = st\<lparr>gpos := gpos st + total_bytes Ls\<rparr>" "0 + total32 Ls = N"
        "\<forall>k<length Ls. 0 + total32 (take k Ls) < N"
      by (auto simp: word_le_nat_alt)
    have "total_bytes Ls < 2 ^ 32 \<longrightarrow> total_bytes Ls = unat N"
      using total_bytes_word [of Ls] L(5) by auto
    with L show ?thesis by (intro exI [of _ Ls]) simp
  qed
  have fail: "\<exists>e. parse_len_prefixed_seq N st f = Some (Inl e)"
    if fr: "frames st Ls" and ex: "N < total32 Ls" and pre: "\<forall>k<length Ls. total32 (take k Ls) < N" for Ls
  proof -
    from ret obtain r where r: "parse_len_prefixed_seq N st f = Some r" by blast
    show ?thesis
    proof (cases r)
      case (Inl e)
      with r show ?thesis by blast
    next
      case (Inr b)
      then obtain out st' where "parse_len_prefixed_seq N st f = Some (Inr (out, st'))"
        using r by (cases b) auto
      from succ [OF this] obtain Ls' where
        L': "frames st Ls'" "total32 Ls' = N" "\<forall>k<length Ls'. total32 (take k Ls') < N" by blast
      from frames_prefix [OF fr L'(1)] have False
      proof
        assume "prefix Ls Ls'"
        then obtain zs where z: "Ls' = Ls @ zs" by (auto simp: prefix_def)
        show False
        proof (cases zs)
          case Nil
          with z ex L'(2) show False by simp
        next
          case (Cons a zs')
          with z have "length Ls < length Ls'" "take (length Ls) Ls' = Ls" by simp_all
          with L'(3) have "total32 Ls < N" by metis
          with ex show False by simp
        qed
      next
        assume "prefix Ls' Ls"
        then obtain zs where z: "Ls = Ls' @ zs" by (auto simp: prefix_def)
        show False
        proof (cases zs)
          case Nil
          with z ex L'(2) show False by simp
        next
          case (Cons a zs')
          with z have "length Ls' < length Ls" "take (length Ls') Ls = Ls'" by simp_all
          with pre have "total32 Ls' < N" by metis
          with L'(2) show False by simp
        qed
      qed
      then show ?thesis ..
    qed
  qed
  have acc: "\<exists>out st'. parse_len_prefixed_seq N st f = Some (Inr (out, st')) \<and>
                      length out = length Ls"
    if "accepts f st Ls" and "total32 Ls = N" and "\<forall>k<length Ls. total32 (take k Ls) < N" for Ls
  proof -
    from that have "\<exists>xs st'. parse_len_prefixed_seq_loop N f 0 [] st = Some (Inr ([] @ xs, st')) \<and>
                     length xs = length Ls"
      by (intro seq_loop_accepts) simp_all
    then show ?thesis by (simp add: parse_len_prefixed_seq_def)
  qed
  from ret succ fail acc show ?thesis by blast
qed

lemma parse_len_prefixed_seq_budget_example:
  "exact parse_certificate \<and>
   parse_len_prefixed_seq 9 small_seq parse_certificate =
     Some (Inr ([[7], []], small_seq\<lparr>gpos := 9\<rparr>)) \<and>
   (\<exists>Ls. length Ls = 2 \<and> frames small_seq Ls \<and> total32 Ls = 9 \<and> total_bytes Ls = 9) \<and>
   frames small_seq [1, 0] \<and> 8 < total32 [1, 0] \<and>
   total32 (take 0 [1, 0]) < 8 \<and> total32 (take 1 [1, 0]) < 8 \<and>
   (\<exists>e. parse_len_prefixed_seq 8 small_seq parse_certificate = Some (Inl e)) \<and>
   accepts parse_certificate small_seq [1, 0] \<and> total32 [1, 0] = 9 \<and>
   total32 (take 0 [1, 0]) < 9 \<and> total32 (take 1 [1, 0]) < 9 \<and>
   (\<exists>out st'. parse_len_prefixed_seq 9 small_seq parse_certificate = Some (Inr (out, st')) \<and>
              length out = 2)"
proof -
  note T = parse_len_prefixed_seq_budget [OF exact_parse_certificate]
  have ac: "accepts parse_certificate small_seq [1, 0]" by code_simp
  have eq: "total32 [1, 0] = 9" by code_simp
  have q0: "total32 (take 0 [1, 0]) < 9" by code_simp
  have q1: "total32 (take 1 [1, 0]) < 9" by code_simp
  have qre: "\<forall>k<length [1, 0 :: u32]. total32 (take k [1, 0]) < 9"
    using q0 q1 by (auto simp: less_Suc_eq numeral_2_eq_2)
  from T [of 9 small_seq] ac eq qre
  have "\<exists>out st'. parse_len_prefixed_seq 9 small_seq parse_certificate = Some (Inr (out, st')) \<and>
                   length out = length [1, 0 :: u32]"
    by blast
  then have good: "\<exists>out st'. parse_len_prefixed_seq 9 small_seq parse_certificate =
                     Some (Inr (out, st')) \<and> length out = 2"
    by (simp add: numeral_2_eq_2)
  have run: "parse_len_prefixed_seq 9 small_seq parse_certificate =
               Some (Inr ([[7], []], small_seq\<lparr>gpos := 9\<rparr>))"
    by code_simp
  have fr: "frames small_seq [1, 0]" by code_simp
  have gt: "8 < total32 [1, 0]" by code_simp
  have p0: "total32 (take 0 [1, 0]) < 8" by code_simp
  have p1: "total32 (take 1 [1, 0]) < 8" by code_simp
  have pre: "\<forall>k<length [1, 0 :: u32]. total32 (take k [1, 0]) < 8"
    using p0 p1 by (auto simp: less_Suc_eq numeral_2_eq_2)
  from T [of 9 small_seq] run
  obtain Ls where Ls: "length Ls = length [[7], [] :: byte list]" "frames small_seq Ls" "total32 Ls = 9"
    "total_bytes Ls < 2 ^ 32 \<longrightarrow> total_bytes Ls = unat (9 :: u32)"
    "small_seq\<lparr>gpos := 9\<rparr> = small_seq\<lparr>gpos := gpos small_seq + total_bytes Ls\<rparr>"
    by blast
  from Ls(5) have "total_bytes Ls = 9"
    by (simp add: small_seq_def)
  with Ls have two: "\<exists>Ls. length Ls = 2 \<and> frames small_seq Ls \<and> total32 Ls = 9 \<and> total_bytes Ls = 9"
    by (intro exI [of _ Ls]) simp
  from T [of 8 small_seq] fr gt pre
  have "\<exists>e. parse_len_prefixed_seq 8 small_seq parse_certificate = Some (Inl e)"
    by blast
  with exact_parse_certificate run two fr gt p0 p1 ac eq q0 q1 good show ?thesis by blast
qed

section \<open>A pair with an unrecognised id whose advance stays in range\<close>

text \<open>
  A pair whose id is none of \<open>0x7109871a\<close>, \<open>0xf05368c0\<close>, \<open>0x1b93ad61\<close> is passed over:
  its value is not read, no position is recorded, nothing is thrown, and the next index
  is \<open>pair_length + 8\<close> further; this when that index is in the range of a stream position.
\<close>

lemma parse_pair_unrecognised_in_range:
  fixes s :: siginfo and pair_len :: u64
  assumes "0 \<le> i"
    and "prefix (le_bytes 8 pair_len @ le_bytes 4 pid) (drop (nat i) (data (ifs s)))"
    and "pid \<noteq> v2_id" and "pid \<noteq> v3_id" and "pid \<noteq> v3_1_id"
    and "i + int (unat pair_len) + 8 < 2 ^ 63"
  shows "parse_pair s i =
           Some (Inr (i + int (unat pair_len) + 8), s\<lparr>ifs := (ifs s)\<lparr>gpos := nat i + 12\<rparr>\<rparr>)"
  using parse_pair_other_step [OF assms(1-3)] assms(4,5) next_index [OF assms(1,6)]
  by simp

section \<open>One v2 pair without signers, once the record is located\<close>

text \<open>
  When the scanner reports the EOCD magic at \<open>p\<close>, the u32 at \<open>p + 16\<close> is the
  central-directory offset \<open>cd\<close>, and the forty bytes before \<open>cd\<close> are the pair (length 8, id
  \<open>0x7109871a\<close>, value: the four-byte length 0 of an empty signer sequence), the block size
  40 and the magic, \<^verbatim>\<open>parse\<close> returns, \<^verbatim>\<open>has_v2_block\<close> is true and the decoded block has
  no signers.
\<close>

lemma parse_zero_signers_located:
  fixes s :: siginfo and cd :: u32
  assumes "reverse_find_bytes (ifs s) eocd_magic (- 1) = Some (Inr (int p, st0))"
    and "prefix (le_bytes 4 cd) (drop (p + 16) (data (ifs s)))"
    and "40 \<le> unat cd"
    and "prefix (id_value_pair v2_id (le_bytes 4 (0 :: u32)) @ le_bytes 8 (40 :: u64) @ apk_magic)
           (drop (unat cd - 40) (data (ifs s)))"
  shows "\<exists>s'. parse s = Some (Inr (), s') \<and> has_v2_block s' \<and> signers (get_v2_block s') = []"
proof -
  have blk: "prefix (le_bytes 8 (8 :: u64) @ le_bytes 4 v2_id @ le_bytes 4 (0 :: u32) @
                     le_bytes 8 (40 :: u64) @ apk_magic)
               (drop (unat cd - 40) (data (ifs s)))"
    using assms(4) by (simp add: id_value_pair_def)
  let ?s' = "s\<lparr>ifs := \<lparr>data = data (ifs s), gpos = unat cd - 24\<rparr>,
               v2_block_pos := int (unat cd) - 28, v2_block_of := \<lparr>signers = []\<rparr>\<rparr>"
  have "parse s = Some (Inr (), ?s')"
    by (rule parse_zero_signers_state [OF assms(1-3) blk])
  moreover have "has_v2_block ?s'"
  proof -
    from assms(3) have "int 40 \<le> int (unat cd)" by (simp only: of_nat_le_iff)
    then show ?thesis by (simp add: has_v2_block_def)
  qed
  moreover have "signers (get_v2_block ?s') = []"
    by (simp add: get_v2_block_def)
  ultimately show ?thesis by blast
qed

lemma parse_zero_signers_located_example:
  "reverse_find_bytes (ifs (siginfo_new zero_signers_apk)) eocd_magic (- 1) =
     Some (Inr (int 48, \<lparr>data = zero_signers_apk, gpos = 70\<rparr>)) \<and>
   prefix (le_bytes 4 (48 :: u32)) (drop (48 + 16) (data (ifs (siginfo_new zero_signers_apk)))) \<and>
   40 \<le> unat (48 :: u32) \<and>
   prefix (id_value_pair v2_id (le_bytes 4 (0 :: u32)) @ le_bytes 8 (40 :: u64) @ apk_magic)
     (drop (unat (48 :: u32) - 40) (data (ifs (siginfo_new zero_signers_apk)))) \<and>
   (\<exists>s'. parse (siginfo_new zero_signers_apk) = Some (Inr (), s') \<and> has_v2_block s' \<and>
         signers (get_v2_block s') = [])"
proof -
  have h1: "reverse_find_bytes (ifs (siginfo_new zero_signers_apk)) eocd_magic (- 1) =
              Some (Inr (int 48, \<lparr>data = zero_signers_apk, gpos = 70\<rparr>))"
    by code_simp
  have h2: "prefix (le_bytes 4 (48 :: u32))
              (drop (48 + 16) (data (ifs (siginfo_new zero_signers_apk))))"
    by code_simp
  have h3: "40 \<le> unat (48 :: u32)" by simp
  have h4: "prefix (id_value_pair v2_id (le_bytes 4 (0 :: u32)) @ le_bytes 8 (40 :: u64) @ apk_magic)
              (drop (unat (48 :: u32) - 40) (data (ifs (siginfo_new zero_signers_apk))))"
    by code_simp
  from parse_zero_signers_located [OF h1 h2 h3 h4] h1 h2 h3 h4 show ?thesis by blast
qed

section \<open>C1: the bytes a SignedData record takes\<close>

text \<open>
  C1 does not hold as it is written.  The SignedData record without digests, certificates
  and attributes is twelve zero bytes, three u32 lengths of value 0.  On a stream of
  sixteen zero bytes \<^verbatim>\<open>parse_v2_signed_data\<close> stops at position 16, and on a stream of
  exactly those twelve bytes it throws: after the attribute sequence it reads one more
  u32 (the local \<^verbatim>\<open>x\<close>) and drops it.
\<close>

theorem signed_data_trailing_field_counterexample:
  "encode_v2_signed_data \<lparr>digests = [], certificates = [], add_attrs = []\<rparr> = replicate 12 0 \<and>
   parse_v2_signed_data 12 \<lparr>data = replicate 16 0, gpos = 0\<rparr> =
     Some (Inr (\<lparr>digests = [], certificates = [], add_attrs = []\<rparr>,
                \<lparr>data = replicate 16 0, gpos = 16\<rparr>)) \<and>
   parse_v2_signed_data 12 \<lparr>data = replicate 12 0, gpos = 0\<rparr> =
     Some (Inl (ios_failure, \<lparr>data = replicate 12 0, gpos = 12\<rparr>))"
  by code_simp

text \<open>
  C1, amended: decoding a SignedData record whose length fields hold the sizes of what
  they prefix (an encoding shorter than \<open>2 ^ 32\<close> bytes) consumes exactly a u32 digests
  sequence length followed by that many bytes of Digest records, a u32 certificates
  sequence length followed by that many bytes of Certificate records, a u32 attributes
  sequence length followed by that many bytes of AdditionalAttribute records, and then
  one further four-byte field, whose value is discarded; the result is the encoded
  digests, certificates and attributes.  The argument \<open>len\<close> is not used.
\<close>

theorem parse_v2_signed_data_consumes:
  assumes "fits_u32 (encode_v2_signed_data sd)"
    and "length trailer = 4"
    and "prefix (encode_v2_signed_data sd @ trailer) (drop (gpos st) (data st))"
  shows "parse_v2_signed_data len st =
           Some (Inr (sd, st\<lparr>gpos := gpos st + length (encode_v2_signed_data sd) + 4\<rparr>))"
proof -
  have f1: "fits_u32 (encode_len_prefixed_seq encode_digest (digests sd))"
    and f2: "fits_u32 (encode_len_prefixed_seq encode_certificate (certificates sd))"
    and f3: "fits_u32 (encode_len_prefixed_seq encode_add_attr (add_attrs sd))"
    using assms(1) by (simp_all add: fits_u32_def encode_v2_signed_data_def)
  from decodesD [OF decodes_parse_v2_signed_data [OF f1 f2 f3 assms(2)] assms(3)] assms(2)
  show ?thesis by (simp add: add.assoc)
qed

theorem parse_v2_signed_data_consumes_witness:
  "fits_u32 (encode_v2_signed_data example_signed_data) \<and>
   length [1, 2, 3, 4 :: byte] = 4 \<and>
   prefix (encode_v2_signed_data example_signed_data @ [1, 2, 3, 4])
     (drop (gpos example_signed_data_stream) (data example_signed_data_stream)) \<and>
   parse_v2_signed_data 0 example_signed_data_stream =
     Some (Inr (example_signed_data,
                example_signed_data_stream
                  \<lparr>gpos := gpos example_signed_data_stream +
                     length (encode_v2_signed_data example_signed_data) + 4\<rparr>))"
proof -
  have h1: "fits_u32 (encode_v2_signed_data example_signed_data)"
    by (simp add: fits_u32_def example_signed_data_def encode_v2_signed_data_def
        encode_len_prefixed_seq_def encode_digest_def encode_certificate_def encode_add_attr_def)
  have h2: "length [1, 2, 3, 4 :: byte] = 4" by simp
  have h3: "prefix (encode_v2_signed_data example_signed_data @ [1, 2, 3, 4])
              (drop (gpos example_signed_data_stream) (data example_signed_data_stream))"
    by code_simp
  from parse_v2_signed_data_consumes [OF h1 h2 h3, of 0] h1 h2 h3 show ?thesis by blast
qed

section \<open>C2: the reverse byte scanner\<close>

text \<open>
  C2 is what the scanner is written to do, and the code misses it by one index: the scan
  of a window starts at \<^verbatim>\<open>crbegin() + pat_size\<close> and compares at \<^verbatim>\<open>it.base() - 1\<close>, so
  the last index at which the pattern could start in the window buffer is never compared.
  In an 8192-byte file with the EOCD magic at offset 4095 (the pattern split 1 + 3 across
  the two 4096-byte windows) the scanner reports \<open>-1\<close>; so it does for the one-byte
  stream that consists of the one-byte pattern.
\<close>

theorem reverse_find_bytes_boundary_miss:
  "take 4 (drop 4095 straddle_file) = eocd_magic \<and>
   reverse_find_bytes \<lparr>data = straddle_file, gpos = 0\<rparr> eocd_magic (- 1) =
     Some (Inr (- 1, \<lparr>data = straddle_file, gpos = 4096\<rparr>)) \<and>
   reverse_find_bytes \<lparr>data = [0x41], gpos = 0\<rparr> [0x41] (- 1) =
     Some (Inr (- 1, \<lparr>data = [0x41], gpos = 1\<rparr>))"
proof -
  have "take 4 (drop 4095 straddle_file) = eocd_magic"
    by (simp add: straddle_file_def eocd_magic_def)
  moreover have "reverse_find_bytes \<lparr>data = [0x41], gpos = 0\<rparr> [0x41] (- 1) =
     Some (Inr (- 1, \<lparr>data = [0x41], gpos = 1\<rparr>))"
    by code_simp
  ultimately show ?thesis using straddle_scan by simp
qed

section \<open>C3: the budget of the sequence decoder\<close>

text \<open>
  C3 is what the decoder is written to do: after every record it compares the running
  total with the budget and throws when the total is larger
  (\<^verbatim>\<open>if (parsed_len > seq_len) throw\<close>).  The total is kept in a \<^verbatim>\<open>uint32_t\<close>, though, and
  the sum \<^verbatim>\<open>parsed_len += sizeof(len) + len\<close> is not checked, so the comparison misses a
  record that carries the total past \<open>2 ^ 32\<close>.  With budget 8 and \<^verbatim>\<open>parse_certificate\<close>
  (which reads exactly its declared length), a first record of declared length
  \<open>0xFFFFFFFC\<close> brings the total of \<open>4 + L\<close> to \<open>2 ^ 32\<close>, far above 8; \<^verbatim>\<open>parsed_len\<close> is
  0 after it, the decoder goes on, reads a second record of length 4 and returns both
  records, \<open>2 ^ 32 + 8\<close> bytes into the stream.
\<close>

theorem parse_len_prefixed_seq_overrun_accepted:
  "unat (8 :: u32) < 4 + unat (0xFFFFFFFC :: u32) \<and>
   parse_len_prefixed_seq 8 \<lparr>data = big_seq, gpos = 0\<rparr> parse_certificate =
     Some (Inr ([replicate 4294967292 0, [1, 2, 3, 4]], \<lparr>data = big_seq, gpos = 4294967304\<rparr>))"
proof -
  let ?st = "\<lparr>data = big_seq, gpos = 0\<rparr>"
  have L1: "le_bytes 4 (0xFFFFFFFC :: u32) = [0xFC, 0xFF, 0xFF, 0xFF]" by code_simp
  have L2: "le_bytes 4 (4 :: u32) = [4, 0, 0, 0]" by code_simp
  have c1: "decodes (parse_certificate 0xFFFFFFFC) (replicate 4294967292 0) (replicate 4294967292 0)"
    using decodes_read_into_vector [of "replicate 4294967292 0" 4294967292]
    by (simp add: decodes_def parse_certificate_def)
  have c2: "decodes (parse_certificate 4) [1, 2, 3, 4] [1, 2, 3, 4]"
    using decodes_read_into_vector [of "[1, 2, 3, 4]" 4]
    by (simp add: decodes_def parse_certificate_def)
  have p0: "prefix (le_bytes 4 (0xFFFFFFFC :: u32)) (drop (gpos ?st) (data ?st))"
    by (simp add: big_seq_def L1)
  have r1: "read_le32 ?st = Some (Inr (0xFFFFFFFC, \<lparr>data = big_seq, gpos = 4\<rparr>))"
    using decodesD [OF decodes_read_le32 p0] by simp
  have r2: "parse_certificate 0xFFFFFFFC \<lparr>data = big_seq, gpos = 4\<rparr> =
              Some (Inr (replicate 4294967292 0, \<lparr>data = big_seq, gpos = 4294967296\<rparr>))"
    using decodesD [OF c1, of "\<lparr>data = big_seq, gpos = 4\<rparr>"] by (simp add: big_seq_def)
  have r3: "read_le32 \<lparr>data = big_seq, gpos = 4294967296\<rparr> =
              Some (Inr (4, \<lparr>data = big_seq, gpos = 4294967300\<rparr>))"
    using decodesD [OF decodes_read_le32 [of 4], of "\<lparr>data = big_seq, gpos = 4294967296\<rparr>"]
    by (simp add: big_seq_def L2)
  have r4: "parse_certificate 4 \<lparr>data = big_seq, gpos = 4294967300\<rparr> =
              Some (Inr ([1, 2, 3, 4], \<lparr>data = big_seq, gpos = 4294967304\<rparr>))"
    using decodesD [OF c2, of "\<lparr>data = big_seq, gpos = 4294967300\<rparr>"] by (simp add: big_seq_def)
  have "parse_len_prefixed_seq 8 ?st parse_certificate =
     Some (Inr ([replicate 4294967292 0, [1, 2, 3, 4]], \<lparr>data = big_seq, gpos = 4294967304\<rparr>))"
    unfolding parse_len_prefixed_seq_def
    apply (subst parse_len_prefixed_seq_loop.simps)
    apply (simp add: r1 r2)
    apply (subst parse_len_prefixed_seq_loop.simps)
    apply (simp add: r3 r4)
    apply (subst parse_len_prefixed_seq_loop.simps)
    apply simp
    done
  then show ?thesis by simp
qed

section \<open>C4: a pair of the walk\<close>

text \<open>
  C4 does not hold as it is written.  For a v2 pair the code first reads a u32 from the
  value and hands that number to the block decoder as its budget; the decoder starts four
  bytes into the value, and the value is never read as \<open>pair_length - 4\<close> bytes.  The pair
  below has \<open>pair_length = 8\<close> and the value \<open>00 00 00 00\<close>: the walk stores a block
  without signers and goes on at index 16, whereas decoding at the start of the value
  with budget \<open>pair_length - 4 = 4\<close> yields a block with one signer.
\<close>

theorem parse_pair_v2_budget_counterexample:
  "take 12 short_v2_pair = le_bytes 8 (8 :: u64) @ le_bytes 4 v2_id \<and>
   parse_pair (siginfo_new short_v2_pair) 0 =
     Some (Inr 16,
           (siginfo_new short_v2_pair)
             \<lparr>ifs := \<lparr>data = short_v2_pair, gpos = 16\<rparr>, v2_block_pos := 12,
               v2_block_of := \<lparr>signers = []\<rparr>\<rparr>) \<and>
   parse_v2_block (8 - 4) \<lparr>data = short_v2_pair, gpos = 12\<rparr> =
     Some (Inr (\<lparr>signers = [empty_signer]\<rparr>, \<lparr>data = short_v2_pair, gpos = 44\<rparr>))"
  by code_simp

text \<open>
  C4, amended: during the walk each pair is read as a u64 \<open>pair_length\<close> and a u32 id, and
  the walk advances by \<open>pair_length + 8\<close> per iteration, so that the \<open>pair_length - 4\<close>
  bytes after the id are the value; this for a pair that lies in the file at an index
  \<open>i \<ge> 0\<close> with \<open>i + pair_length + 8\<close> in the range of a stream position.  The value is read
  only when the id is the v2 id \<open>0x7109871a\<close>: then the position of the value is recorded,
  its first four bytes are read as a u32, and the V2 block decoder is invoked on the rest
  of the value, right after these four bytes, with that u32 as its budget; the block it
  returns is stored, and when it throws, so does the walk.  For any other id the value is
  passed over (the position of the value is recorded for the v3 and v3.1 ids).
\<close>

theorem parse_pair_step:
  fixes s :: siginfo and pair_len :: u64
  assumes "0 \<le> i"
    and "prefix (le_bytes 8 pair_len @ le_bytes 4 pid) (drop (nat i) (data (ifs s)))"
    and "i + int (unat pair_len) + 8 < 2 ^ 63"
  shows "(pid \<noteq> v2_id \<longrightarrow>
            parse_pair s i =
              Some (Inr (i + int (unat pair_len) + 8),
                    s\<lparr>ifs := (ifs s)\<lparr>gpos := nat i + 12\<rparr>,
                      v3_block_pos := (if pid = v3_id then i + 12 else v3_block_pos s),
                      v3_1_block_pos := (if pid = v3_1_id then i + 12 else v3_1_block_pos s)\<rparr>)) \<and>
         (pid = v2_id \<and> prefix (le_bytes 4 v2_block_len) (drop (nat i + 12) (data (ifs s))) \<longrightarrow>
            parse_pair s i =
              (case parse_v2_block v2_block_len ((ifs s)\<lparr>gpos := nat i + 16\<rparr>) of
                 None \<Rightarrow> None
               | Some (Inl (e, st')) \<Rightarrow> Some (Inl e, s\<lparr>ifs := st', v2_block_pos := i + 12\<rparr>)
               | Some (Inr (b, st')) \<Rightarrow>
                   Some (Inr (i + int (unat pair_len) + 8),
                         s\<lparr>ifs := st', v2_block_pos := i + 12, v2_block_of := b\<rparr>)))"
proof (intro conjI impI)
  note nx = next_index [OF assms(1,3)]
  assume "pid \<noteq> v2_id"
  from parse_pair_other_step [OF assms(1,2) this]
  show "parse_pair s i =
          Some (Inr (i + int (unat pair_len) + 8),
                s\<lparr>ifs := (ifs s)\<lparr>gpos := nat i + 12\<rparr>,
                  v3_block_pos := (if pid = v3_id then i + 12 else v3_block_pos s),
                  v3_1_block_pos := (if pid = v3_1_id then i + 12 else v3_1_block_pos s)\<rparr>)"
    by (simp only: nx)
next
  note nx = next_index [OF assms(1,3)]
  assume a: "pid = v2_id \<and> prefix (le_bytes 4 v2_block_len) (drop (nat i + 12) (data (ifs s)))"
  have "length (le_bytes 8 pair_len @ le_bytes 4 pid) = 12" by (simp add: length_le_bytes)
  with a have "prefix (le_bytes 4 v2_block_len)
                 (drop (nat i + length (le_bytes 8 pair_len @ le_bytes 4 pid)) (data (ifs s)))"
    by simp
  from prefix_append_drop [OF assms(2) this] a
  have "prefix (le_bytes 8 pair_len @ le_bytes 4 v2_id @ le_bytes 4 v2_block_len)
          (drop (nat i) (data (ifs s)))"
    by simp
  from parse_pair_v2_step [OF assms(1) this]
  show "parse_pair s i =
          (case parse_v2_block v2_block_len ((ifs s)\<lparr>gpos := nat i + 16\<rparr>) of
             None \<Rightarrow> None
           | Some (Inl (e, st')) \<Rightarrow> Some (Inl e, s\<lparr>ifs := st', v2_block_pos := i + 12\<rparr>)
           | Some (Inr (b, st')) \<Rightarrow>
               Some (Inr (i + int (unat pair_len) + 8),
                     s\<lparr>ifs := st', v2_block_pos := i + 12, v2_block_of := b\<rparr>))"
    by (simp only: nx)
qed

theorem parse_pair_step_witness:
  "(0 :: int) \<le> 0 \<and>
   prefix (le_bytes 8 (8 :: u64) @ le_bytes 4 v2_id)
     (drop (nat 0) (data (ifs (siginfo_new short_v2_pair)))) \<and>
   0 + int (unat (8 :: u64)) + 8 < (2 :: int) ^ 63 \<and>
   prefix (le_bytes 4 (0 :: u32)) (drop (nat 0 + 12) (data (ifs (siginfo_new short_v2_pair)))) \<and>
   parse_pair (siginfo_new short_v2_pair) 0 =
     Some (Inr 16,
           (siginfo_new short_v2_pair)
             \<lparr>ifs := \<lparr>data = short_v2_pair, gpos = 16\<rparr>, v2_block_pos := 12,
               v2_block_of := \<lparr>signers = []\<rparr>\<rparr>) \<and>
   prefix (le_bytes 8 (8 :: u64) @ le_bytes 4 (0x42726577 :: u32))
     (drop (nat 0) (data (ifs (siginfo_new padding_pair)))) \<and>
   (0x42726577 :: u32) \<noteq> v2_id \<and>
   parse_pair (siginfo_new padding_pair) 0 =
     Some (Inr 16, (siginfo_new padding_pair)\<lparr>ifs := \<lparr>data = padding_pair, gpos = 12\<rparr>\<rparr>)"
proof -
  have r: "0 + int (unat (8 :: u64)) + 8 < (2 :: int) ^ 63" by simp
  have h: "prefix (le_bytes 8 (8 :: u64) @ le_bytes 4 v2_id)
             (drop (nat 0) (data (ifs (siginfo_new short_v2_pair))))"
    by code_simp
  have v: "prefix (le_bytes 4 (0 :: u32)) (drop (nat 0 + 12) (data (ifs (siginfo_new short_v2_pair))))"
    by code_simp
  have g: "prefix (le_bytes 8 (8 :: u64) @ le_bytes 4 (0x42726577 :: u32))
             (drop (nat 0) (data (ifs (siginfo_new padding_pair))))"
    by code_simp
  have n: "(0x42726577 :: u32) \<noteq> v2_id" "(0x42726577 :: u32) \<noteq> v3_id"
    "(0x42726577 :: u32) \<noteq> v3_1_id"
    by (simp_all add: v2_id_def v3_id_def v3_1_id_def)
  from parse_pair_step [OF order_refl h r, of 0] v
  have one: "parse_pair (siginfo_new short_v2_pair) 0 =
     Some (Inr 16,
           (siginfo_new short_v2_pair)
             \<lparr>ifs := \<lparr>data = short_v2_pair, gpos = 16\<rparr>, v2_block_pos := 12,
               v2_block_of := \<lparr>signers = []\<rparr>\<rparr>)"
    by (simp add: parse_v2_block_zero siginfo_new_def)
  from parse_pair_step [OF order_refl g r, of 0] n
  have two: "parse_pair (siginfo_new padding_pair) 0 =
     Some (Inr 16, (siginfo_new padding_pair)\<lparr>ifs := \<lparr>data = padding_pair, gpos = 12\<rparr>\<rparr>)"
    by (simp add: siginfo_new_def)
  from r h v g n(1) one two show ?thesis by simp
qed

section \<open>C5: decoding an encoded block\<close>

text \<open>
  C5 does not hold as it is written.  Encoded as section 4.6 lays it out, with nothing
  between the attribute sequence and the signatures length, a block with one signer is
  not decoded back: the decoder takes the signatures length for the extra field, the
  public-key length for the signatures length, and then reads past the end, or, when
  other bytes follow, takes them for the public key.
\<close>

theorem parse_v2_block_spec_layout_counterexample:
  "parse_v2_block (word_of_nat (length (encode_v2_block [] example_block)))
     \<lparr>data = encode_v2_block [] example_block, gpos = 0\<rparr> =
     Some (Inl (ios_failure, \<lparr>data = encode_v2_block [] example_block, gpos = 104\<rparr>)) \<and>
   parse_v2_block (word_of_nat (length (encode_v2_block [] \<lparr>signers = [empty_signer]\<rparr>)))
     \<lparr>data = encode_v2_block [] \<lparr>signers = [empty_signer]\<rparr> @ [2, 0, 0, 0, 0xDD, 0xEE], gpos = 0\<rparr> =
     Some (Inr (\<lparr>signers = [empty_signer\<lparr>public_key := [0xDD, 0xEE]\<rparr>]\<rparr>,
                \<lparr>data = encode_v2_block [] \<lparr>signers = [empty_signer]\<rparr> @ [2, 0, 0, 0, 0xDD, 0xEE],
                 gpos = 34\<rparr>))"
  by code_simp

text \<open>
  C5, amended: for every v2 block \<open>x\<close> whose encoding, with a four-byte field after the
  attribute sequence of each signer's SignedData, is shorter than \<open>2 ^ 32\<close> bytes, decoding
  the bytes produced by encoding \<open>x\<close> reproduces \<open>x\<close> exactly (the signers and, for each,
  the digest list, certificate list, attribute list, signature list and public key) and
  consumes exactly those bytes.  The content of the four-byte field does not matter.
\<close>

theorem parse_v2_block_roundtrip:
  assumes "wf_v2_block trailer b"
    and "prefix (encode_v2_block trailer b) (drop (gpos st) (data st))"
  shows "parse_v2_block (word_of_nat (length (encode_v2_block trailer b))) st =
           Some (Inr (b, st\<lparr>gpos := gpos st + length (encode_v2_block trailer b)\<rparr>))"
  using decodesD [OF decodes_parse_v2_block [OF assms(1)] assms(2)] .

theorem parse_v2_block_roundtrip_witness:
  "wf_v2_block [0, 0, 0, 0] example_block \<and>
   prefix (encode_v2_block [0, 0, 0, 0] example_block)
     (drop (gpos example_block_stream) (data example_block_stream)) \<and>
   parse_v2_block (word_of_nat (length (encode_v2_block [0, 0, 0, 0] example_block)))
     example_block_stream =
     Some (Inr (example_block,
                example_block_stream
                  \<lparr>gpos := gpos example_block_stream +
                     length (encode_v2_block [0, 0, 0, 0] example_block)\<rparr>))"
proof -
  have h1: "wf_v2_block [0, 0, 0, 0] example_block"
    by (simp add: wf_v2_block_def fits_u32_def example_block_def example_signer_def
        empty_signer_def example_signed_data_def encode_v2_block_def encode_v2_signer_def
        encode_v2_signed_data_def encode_len_prefixed_seq_def encode_digest_def
        encode_certificate_def encode_add_attr_def encode_signature_def)
  have h2: "prefix (encode_v2_block [0, 0, 0, 0] example_block)
              (drop (gpos example_block_stream) (data example_block_stream))"
    by code_simp
  from parse_v2_block_roundtrip [OF h1 h2] h1 h2 show ?thesis by blast
qed

section \<open>C6: the block after a failed parse\<close>

text \<open>
  C6 does not hold as it is written.  \<^verbatim>\<open>parse\<close> assigns \<^verbatim>\<open>v2_block_\<close> as soon as one v2
  pair is decoded and keeps walking; an exception thrown later leaves the assignment in
  place.  The file below holds a v3 pair, a v2 pair with one signer, and a second v2 pair
  whose sequence overruns its budget: \<^verbatim>\<open>parse\<close> throws, and \<^verbatim>\<open>get_v2_block\<close> then
  returns one signer, where the freshly constructed object had none.
\<close>

theorem parse_failure_block_counterexample:
  "signers (get_v2_block (siginfo_new failing_apk)) = [] \<and>
   parse (siginfo_new failing_apk) = Some (Inl incomplete_sequence, failed_state) \<and>
   signers (get_v2_block failed_state) = [empty_signer]"
  using parse_failing_apk by (simp add: get_v2_block_def siginfo_new_def failed_state_def)

text \<open>
  C6, amended: if \<^verbatim>\<open>parse\<close> fails, the block accessible through the object is never a
  partially populated tree: it is the block held before the call, or the complete result
  of decoding the value of a v2 pair of this file; when the failure is the missing EOCD
  magic or the signing-block magic mismatch, it is the block held before the call (no
  signers for a freshly constructed object).
\<close>

theorem parse_failure_v2_block:
  assumes "parse s = Some (Inl e, s')"
  shows "(get_v2_block s' = get_v2_block s \<or>
          (\<exists>p. id_at (data (ifs s)) (int p) v2_id \<and>
               decoded_at (data (ifs s)) p (get_v2_block s'))) \<and>
         (e = not_a_zip_file \<or> e = magic_not_found \<longrightarrow> get_v2_block s' = get_v2_block s)"
proof -
  from parse_inv [OF assms]
  have "get_v2_block s' = get_v2_block s \<or>
          (\<exists>p. id_at (data (ifs s)) (int p) v2_id \<and>
               decoded_at (data (ifs s)) p (get_v2_block s'))"
    by (simp add: walk_inv_def get_v2_block_def)
  moreover have "get_v2_block s' = get_v2_block s" if "e = not_a_zip_file \<or> e = magic_not_found"
    using parse_error_before_walk [OF assms that] by (auto simp: get_v2_block_def)
  ultimately show ?thesis by blast
qed

theorem parse_failure_v2_block_witness:
  "parse (siginfo_new failing_apk) = Some (Inl incomplete_sequence, failed_state) \<and>
   id_at failing_apk 32 v2_id \<and> decoded_at failing_apk 32 (get_v2_block failed_state) \<and>
   (get_v2_block failed_state = get_v2_block (siginfo_new failing_apk) \<or>
    (\<exists>p. id_at (data (ifs (siginfo_new failing_apk))) (int p) v2_id \<and>
         decoded_at (data (ifs (siginfo_new failing_apk))) p (get_v2_block failed_state))) \<and>
   parse (siginfo_new []) = Some (Inl not_a_zip_file, siginfo_new []) \<and>
   (not_a_zip_file = not_a_zip_file \<or> not_a_zip_file = magic_not_found) \<and>
   get_v2_block (siginfo_new []) = get_v2_block (siginfo_new [])"
proof -
  have a: "id_at failing_apk 32 v2_id" by code_simp
  have b: "decoded_at failing_apk 32 (get_v2_block failed_state)" by code_simp
  from parse_failure_v2_block [OF parse_failing_apk] parse_failure_v2_block [OF parse_empty_file]
    parse_failing_apk parse_empty_file a b
  show ?thesis by blast
qed

section \<open>C7: the presence flags before a successful parse\<close>

text \<open>
  C7 does not hold as it is written.  The positions are recorded while the walk goes, and
  an exception thrown later does not reset them.  On the file of the previous section
  \<^verbatim>\<open>parse\<close> throws, and both \<^verbatim>\<open>has_v2_block\<close> and \<^verbatim>\<open>has_v3_block\<close> return true
  afterwards.
\<close>

theorem parse_failure_flags_counterexample:
  "parse (siginfo_new failing_apk) = Some (Inl incomplete_sequence, failed_state) \<and>
   has_v2_block failed_state \<and> has_v3_block failed_state"
  using parse_failing_apk by (simp add: has_v2_block_def has_v3_block_def failed_state_def)

text \<open>
  C7, amended: for every siginfo object on which \<^verbatim>\<open>parse\<close> has not been called,
  \<^verbatim>\<open>has_v2_block\<close> and \<^verbatim>\<open>has_v3_block\<close> return false.  A \<^verbatim>\<open>parse\<close> that fails because
  the EOCD magic is missing or the signing-block magic does not match leaves both flags
  as they were.  After any failed \<^verbatim>\<open>parse\<close>, a flag that was false and is now true
  reports a position recorded by the walk, right after a pair id of that kind.
\<close>

theorem parse_failure_flags:
  "\<not> has_v2_block (siginfo_new file) \<and> \<not> has_v3_block (siginfo_new file) \<and>
   (parse s = Some (Inl e, s') \<longrightarrow>
      (e = not_a_zip_file \<or> e = magic_not_found \<longrightarrow>
         has_v2_block s' = has_v2_block s \<and> has_v3_block s' = has_v3_block s) \<and>
      (has_v2_block s' \<longrightarrow> has_v2_block s \<or> id_at (data (ifs s)) (v2_block_pos s') v2_id) \<and>
      (has_v3_block s' \<longrightarrow> has_v3_block s \<or> id_at (data (ifs s)) (v3_block_pos s') v3_id))"
proof -
  have fresh: "\<not> has_v2_block (siginfo_new file) \<and> \<not> has_v3_block (siginfo_new file)"
    by (simp add: has_v2_block_def has_v3_block_def siginfo_new_def)
  have failed: "(e = not_a_zip_file \<or> e = magic_not_found \<longrightarrow>
         has_v2_block s' = has_v2_block s \<and> has_v3_block s' = has_v3_block s) \<and>
      (has_v2_block s' \<longrightarrow> has_v2_block s \<or> id_at (data (ifs s)) (v2_block_pos s') v2_id) \<and>
      (has_v3_block s' \<longrightarrow> has_v3_block s \<or> id_at (data (ifs s)) (v3_block_pos s') v3_id)"
    if p: "parse s = Some (Inl e, s')"
  proof -
    have "has_v2_block s' = has_v2_block s \<and> has_v3_block s' = has_v3_block s"
      if "e = not_a_zip_file \<or> e = magic_not_found"
      using parse_error_before_walk [OF p that] by (auto simp: has_v2_block_def has_v3_block_def)
    moreover from parse_inv [OF p]
    have "has_v2_block s' \<longrightarrow> has_v2_block s \<or> id_at (data (ifs s)) (v2_block_pos s') v2_id"
      and "has_v3_block s' \<longrightarrow> has_v3_block s \<or> id_at (data (ifs s)) (v3_block_pos s') v3_id"
      by (auto simp: walk_inv_def has_v2_block_def has_v3_block_def)
    ultimately show ?thesis by blast
  qed
  from fresh failed show ?thesis by blast
qed

theorem parse_failure_flags_witness:
  "parse (siginfo_new []) = Some (Inl not_a_zip_file, siginfo_new []) \<and>
   \<not> has_v2_block (siginfo_new []) \<and> \<not> has_v3_block (siginfo_new []) \<and>
   parse (siginfo_new failing_apk) = Some (Inl incomplete_sequence, failed_state) \<and>
   has_v2_block failed_state \<and> has_v3_block failed_state \<and>
   id_at (data (ifs (siginfo_new failing_apk))) (v2_block_pos failed_state) v2_id \<and>
   id_at (data (ifs (siginfo_new failing_apk))) (v3_block_pos failed_state) v3_id"
proof -
  have f: "has_v2_block failed_state" "has_v3_block failed_state"
    by (simp_all add: has_v2_block_def has_v3_block_def failed_state_def)
  note T1 = parse_failure_flags [of "[]" "siginfo_new []" not_a_zip_file "siginfo_new []"]
  note T2 = parse_failure_flags [of failing_apk "siginfo_new failing_apk" incomplete_sequence failed_state]
  from T1 T2 parse_empty_file parse_failing_apk f show ?thesis by blast
qed

section \<open>C8: one v2 pair without signers\<close>

text \<open>
  C8 is what \<^verbatim>\<open>parse\<close> is written to do, and it does so whenever the scanner reports the
  EOCD record.  The scanner misses the record when its magic starts on the last byte of
  one of the 4096-byte windows counted from the end of the file, the defect of
  \<^verbatim>\<open>reverse_find_bytes\<close> shown for C2.  The file \<open>commented_apk n\<close> is a signing block with
  one v2 pair without signers, followed by an EOCD record with a comment of \<open>n\<close> zero
  bytes.  With \<open>n = 4075\<close> the file has 4145 bytes and the magic is at offset 48, the last
  byte of the second window: \<^verbatim>\<open>parse\<close> throws "Not a zip file".  With a comment one byte
  shorter it returns, with the v2 position recorded and a block without signers.
\<close>

theorem parse_zero_signers_boundary_miss:
  "commented_apk 4075 =
     signing_block (id_value_pair v2_id (le_bytes 4 (0 :: u32))) @
     eocd_record_commented 48 (replicate 4075 0) \<and>
   length (commented_apk 4075) = 4145 \<and>
   take 4 (drop 48 (commented_apk 4075)) = eocd_magic \<and>
   parse (siginfo_new (commented_apk 4075)) =
     Some (Inl not_a_zip_file,
           (siginfo_new (commented_apk 4075))\<lparr>ifs := \<lparr>data = commented_apk 4075, gpos = 49\<rparr>\<rparr>) \<and>
   parse (siginfo_new (commented_apk 4074)) =
     Some (Inr (), (siginfo_new (commented_apk 4074))
             \<lparr>ifs := \<lparr>data = commented_apk 4074, gpos = 24\<rparr>, v2_block_pos := 20,
               v2_block_of := \<lparr>signers = []\<rparr>\<rparr>)"
proof -
  have "commented_apk 4075 =
     signing_block (id_value_pair v2_id (le_bytes 4 (0 :: u32))) @
     eocd_record_commented 48 (replicate 4075 0)"
    by (simp add: commented_apk_def)
  moreover have "length (commented_apk 4075) = 4145"
    unfolding long_comment_apk_bytes by simp
  moreover have "take 4 (drop 48 (commented_apk 4075)) = eocd_magic"
    unfolding long_comment_apk_bytes by (simp add: eocd_magic_def)
  ultimately show ?thesis
    using parse_long_comment_apk parse_short_comment_apk by simp
qed

section \<open>C9: the empty pattern\<close>

text \<open>
  C9 does not hold as it is written.  \<^verbatim>\<open>reverse_find_bytes\<close> tests \<^verbatim>\<open>pat_size == 0\<close> and
  returns \<open>-1\<close>, the value that also means "not found"; only a negative size throws.
\<close>

theorem reverse_find_bytes_empty_pattern_counterexample:
  "reverse_find_bytes \<lparr>data = [0x50, 0x4B, 0x05, 0x06], gpos = 0\<rparr> [] (- 1) =
     Some (Inr (- 1, \<lparr>data = [0x50, 0x4B, 0x05, 0x06], gpos = 4\<rparr>))"
  by code_simp

text \<open>
  C9, amended: calling the scanner with a pattern of length 0 raises no error of its
  own: after the initial seek (to the end of the stream by default, else to the start
  position, which fails only when that position is negative) it returns \<open>-1\<close>, the "not
  found" value.
\<close>

theorem reverse_find_bytes_empty_pattern:
  "reverse_find_bytes st [] start =
     (if start = - 1 then Some (Inr (- 1, st\<lparr>gpos := length (data st)\<rparr>))
      else if start < 0 then Some (Inl (ios_failure, st))
      else Some (Inr (- 1, st\<lparr>gpos := nat start\<rparr>)))"
  by (simp add: reverse_find_bytes_def bind_res_def seekg_end_def seekg_def)

theorem reverse_find_bytes_empty_pattern_witness:
  "reverse_find_bytes \<lparr>data = [0x50, 0x4B], gpos = 0\<rparr> [] 1 =
     Some (Inr (- 1, \<lparr>data = [0x50, 0x4B], gpos = 1\<rparr>))"
  using reverse_find_bytes_empty_pattern [of "\<lparr>data = [0x50, 0x4B], gpos = 0\<rparr>" 1] by simp

section \<open>C10: a pair with an unrecognised id\<close>

text \<open>
  C10 is what the walk is written to do: after every pair, whatever its id, the index is
  moved by \<^verbatim>\<open>pair_len + 8\<close>.  The sum is a \<^verbatim>\<open>uint64_t\<close>, though, and it is not checked:
  for the pair length \<open>0xFFFFFFFFFFFFFFF8\<close> it is 0 and the index does not move.  The pair
  below has this length and the unrecognised id 0; one step of the walk at index 0 ends
  with the next index 0, and on the file whose signing block holds this one pair the walk
  reads the same pair again and again: \<^verbatim>\<open>parse\<close> does not return.
\<close>

theorem parse_unrecognised_pair_stuck:
  "wrap_pair = le_bytes 8 (0xFFFFFFFFFFFFFFF8 :: u64) @ le_bytes 4 (0 :: u32) \<and>
   parse_pair (siginfo_new wrap_pair) 0 =
     Some (Inr 0, (siginfo_new wrap_pair)\<lparr>ifs := \<lparr>data = wrap_pair, gpos = 12\<rparr>\<rparr>) \<and>
   never_ending_apk = apk_file wrap_pair \<and>
   parse (siginfo_new never_ending_apk) = None"
proof -
  let ?s = "siginfo_new never_ending_apk"
  have h1: "reverse_find_bytes (ifs ?s) eocd_magic (- 1) =
              Some (Inr (int 44, \<lparr>data = never_ending_apk, gpos = 66\<rparr>))"
    by code_simp
  have h2: "prefix (le_bytes 4 (44 :: u32)) (drop (44 + 16) (data (ifs ?s)))" by code_simp
  have h3: "24 \<le> unat (44 :: u32)" by simp
  have h4: "prefix (le_bytes 8 (36 :: u64) @ apk_magic) (drop (unat (44 :: u32) - 24) (data (ifs ?s)))"
    by code_simp
  let ?s7 = "?s\<lparr>ifs := \<lparr>data = never_ending_apk, gpos = 28\<rparr>\<rparr>"
  let ?s8 = "?s\<lparr>ifs := \<lparr>data = never_ending_apk, gpos = 20\<rparr>\<rparr>"
  have p: "parse ?s = parse_pairs 20 ?s7 8"
    using parse_locate [OF h1 h2 h3 h4] streamoff_id [of 8] by (simp add: siginfo_new_def)
  have s1: "parse_pair ?s7 8 = Some (Inr 8, ?s8)" by code_simp
  have s2: "parse_pair ?s8 8 = Some (Inr 8, ?s8)" by code_simp
  have "parse_pairs 20 ?s7 8 = parse_pairs 20 ?s8 8"
    by (subst parse_pairs.simps) (simp add: s1)
  also have "\<dots> = None"
    by (rule parse_pairs_stuck [OF _ s2]) simp
  finally have never: "parse ?s = None" using p by simp
  have "wrap_pair = le_bytes 8 (0xFFFFFFFFFFFFFFF8 :: u64) @ le_bytes 4 (0 :: u32)"
    by (simp add: wrap_pair_def)
  moreover have "parse_pair (siginfo_new wrap_pair) 0 =
     Some (Inr 0, (siginfo_new wrap_pair)\<lparr>ifs := \<lparr>data = wrap_pair, gpos = 12\<rparr>\<rparr>)"
    by code_simp
  moreover have "never_ending_apk = apk_file wrap_pair"
    by (simp add: never_ending_apk_def)
  ultimately show ?thesis using never by simp
qed

end
